theory Spec2Isabelle
  imports Complex_Main "HOL-Library.Word"
begin

section \<open>A Gaussian blur on a compute device: the host program\<close>

text \<open>
  The program is one C++ file. Its host side builds a normalised Gaussian weight matrix
  from a radius (\<open>gaussian\<close>, \<open>produce2dGaussianKernel\<close>), reads a raw-pixel image
  (\<open>LoadImage\<close>), pads it from three to four channels (\<open>RGBtoRGBA\<close>), drives the device
  through its C interface (\<open>main\<close>), strips the fourth channel again (\<open>RGBAtoRGB\<close>) and
  writes the result (\<open>SaveImage\<close>).

  Conventions of the embedding:
  \<^item> \<open>unsigned int\<close> is \<open>32 word\<close>, so that \<open>2 * kernelRadius + 1\<close> wraps as it does in
    the program; \<open>int\<close> values are mathematical integers and every place where the
    program would leave the range of \<open>int\<close> is a fault of the model;
    \<open>char\<close> is \<open>8 word\<close> for pixel data and \<open>char\<close> for text;
  \<^item> \<open>float\<close> and \<open>double\<close> are read as the real numbers: the model computes what the
    program computes when no operation rounds. Rounding error is outside the model;
  \<^item> undefined behaviour of C++ (an index past the end of a vector, a signed overflow, a
    read of an uninitialised variable) is a value of type \<open>fault\<close>, never an arbitrary
    result;
  \<^item> \<open>std::size_t\<close> counters are natural numbers: a vector is shorter than \<open>2^63\<close>, so
    that \<open>i += 3\<close> and \<open>i += 4\<close> cannot wrap.
\<close>

subsection \<open>Images and the channel adapter\<close>

datatype fault = Out_of_range | Signed_overflow | Uninitialised | Unrepresentable | Bad_array_size

record Image =
  pixel :: "8 word list"
  width :: int
  height :: int

text \<open>
  The loop of \<open>RGBtoRGBA\<close>: \<open>for (i = 0; i < input.pixel.size (); i += 3)\<close>, pushing
  \<open>pixel [i + 0]\<close>, \<open>pixel [i + 1]\<close>, \<open>pixel [i + 2]\<close> and \<open>0\<close>. The unchecked
  \<open>operator[]\<close> past the end is a fault.
\<close>

function RGBtoRGBA_loop :: "8 word list \<Rightarrow> nat \<Rightarrow> 8 word list \<Rightarrow> fault + 8 word list" where
  "RGBtoRGBA_loop inp i out =
     (if i < length inp then
        (if i + 2 < length inp then
           RGBtoRGBA_loop inp (i + 3) (out @ [inp ! (i + 0), inp ! (i + 1), inp ! (i + 2), 0])
         else Inl Out_of_range)
      else Inr out)"
  by pat_completeness auto
termination
  by (relation "measure (\<lambda>(inp, i, out). length inp - i)") auto

definition RGBtoRGBA :: "Image \<Rightarrow> fault + Image" where
  "RGBtoRGBA input =
     (case RGBtoRGBA_loop (pixel input) 0 [] of
        Inl f \<Rightarrow> Inl f
      | Inr px \<Rightarrow> Inr \<lparr>pixel = px, width = width input, height = height input\<rparr>)"

text \<open>The loop of \<open>RGBAtoRGB\<close>: the same with a stride of four and three bytes kept.\<close>

function RGBAtoRGB_loop :: "8 word list \<Rightarrow> nat \<Rightarrow> 8 word list \<Rightarrow> fault + 8 word list" where
  "RGBAtoRGB_loop inp i out =
     (if i < length inp then
        (if i + 2 < length inp then
           RGBAtoRGB_loop inp (i + 4) (out @ [inp ! (i + 0), inp ! (i + 1), inp ! (i + 2)])
         else Inl Out_of_range)
      else Inr out)"
  by pat_completeness auto
termination
  by (relation "measure (\<lambda>(inp, i, out). length inp - i)") auto

definition RGBAtoRGB :: "Image \<Rightarrow> fault + Image" where
  "RGBAtoRGB input =
     (case RGBAtoRGB_loop (pixel input) 0 [] of
        Inl f \<Rightarrow> Inl f
      | Inr px \<Rightarrow> Inr \<lparr>pixel = px, width = width input, height = height input\<rparr>)"

declare RGBtoRGBA_loop.simps [simp del] RGBAtoRGB_loop.simps [simp del]

text \<open>
  Two list functions used only to state what the loops compute: a zero after every three
  bytes, and every fourth byte dropped.
\<close>

fun pad_alpha :: "8 word list \<Rightarrow> 8 word list" where
  "pad_alpha (r # g # b # rest) = r # g # b # 0 # pad_alpha rest"
| "pad_alpha rest = []"

fun drop_alpha :: "8 word list \<Rightarrow> 8 word list" where
  "drop_alpha (r # g # b # a # rest) = r # g # b # drop_alpha rest"
| "drop_alpha rest = []"


subsection \<open>The kernel builder\<close>

type_synonym kernel_elem = real
type_synonym kernel_row = "kernel_elem list"
type_synonym kernel_type = "kernel_row list"

text \<open>
  \<open>gaussian (double x, double mu, double sigma)\<close>: \<open>a = (x - mu) / sigma\<close>, then
  \<open>std::exp (-0.5 * a * a)\<close>. The result is exact here, where the program rounds it to
  \<open>float\<close>. The program calls the function with \<open>sigma = kernelRadius / 2.\<close> and a radius
  other than \<open>0\<close> only, so that the division by zero of IEEE arithmetic (which is not the
  division by zero of the real numbers here) does not arise.
\<close>

definition gaussian :: "real \<Rightarrow> real \<Rightarrow> real \<Rightarrow> kernel_elem" where
  "gaussian x mu sigma = (let a = (x - mu) / sigma in exp (- 0.5 * a * a))"

text \<open>
  The loop counters \<open>row\<close> and \<open>col\<close> are of type \<open>int\<close>. They never go negative, so
  they are natural numbers here, and \<open>row++\<close> at \<open>INT_MAX\<close> is the fault
  \<open>Signed_overflow\<close>. The accumulator \<open>acc\<close> is the program's variable \<open>sum\<close>.
\<close>

definition INT_MAX :: int where
  "INT_MAX = 2147483647"

text \<open>The first pair of loops: every cell is set to the product and added to the sum.\<close>

function compute_cols ::
  "32 word \<Rightarrow> real \<Rightarrow> nat \<Rightarrow> nat \<Rightarrow> kernel_type \<times> real \<Rightarrow> fault + kernel_type \<times> real" where
  "compute_cols kernelRadius sigma row col (kernel2d, acc) =
     (if col < length (kernel2d ! row) then
        let x = gaussian (real row) (real (unat kernelRadius)) sigma
                  * gaussian (real col) (real (unat kernelRadius)) sigma;
            kernel2d' = kernel2d[row := (kernel2d ! row)[col := x]];
            acc' = acc + x
        in if int col < INT_MAX then compute_cols kernelRadius sigma row (col + 1) (kernel2d', acc')
           else Inl Signed_overflow
      else Inr (kernel2d, acc))"
  by pat_completeness auto
termination
proof (relation "measure (\<lambda>(kernelRadius, sigma, row, col, kernel2d, acc). length (kernel2d ! row) - col)")
  fix kernelRadius :: "32 word" and sigma acc x acc' :: real and row col :: nat
    and kernel2d kernel2d' :: kernel_type
  assume "col < length (kernel2d ! row)" and "kernel2d' = kernel2d[row := (kernel2d ! row)[col := x]]"
  moreover have "length (kernel2d[row := (kernel2d ! row)[col := x]] ! row) = length (kernel2d ! row)"
    by (cases "row < length kernel2d") (simp_all add: list_update_beyond)
  ultimately show "((kernelRadius, sigma, row, col + 1, kernel2d', acc'),
                     (kernelRadius, sigma, row, col, kernel2d, acc))
           \<in> measure (\<lambda>(kernelRadius, sigma, row, col, kernel2d, acc). length (kernel2d ! row) - col)"
    by simp
qed simp

declare compute_cols.simps [simp del]

function compute_rows ::
  "32 word \<Rightarrow> real \<Rightarrow> nat \<Rightarrow> kernel_type \<times> real \<Rightarrow> fault + kernel_type \<times> real" where
  "compute_rows kernelRadius sigma row (kernel2d, acc) =
     (if row < length kernel2d then
        (case compute_cols kernelRadius sigma row 0 (kernel2d, acc) of
           Inl f \<Rightarrow> Inl f
         | Inr (kernel2d', acc') \<Rightarrow>
             if int row < INT_MAX then compute_rows kernelRadius sigma (row + 1) (kernel2d', acc')
             else Inl Signed_overflow)
      else Inr (kernel2d, acc))"
  by pat_completeness auto
termination
proof (relation "measure (\<lambda>(kernelRadius, sigma, row, kernel2d, acc). length kernel2d - row)")
  have same_length: "length kernel2d' = length kernel2d"
    if "compute_cols kernelRadius sigma row col (kernel2d, acc) = Inr (kernel2d', acc')"
    for kernelRadius sigma row col kernel2d acc kernel2d' acc'
    using that
  proof (induction kernelRadius sigma row col "(kernel2d, acc)" arbitrary: kernel2d acc
         rule: compute_cols.induct)
    case (1 kernelRadius sigma row col kernel2d acc)
    show ?case
    proof (cases "col < length (kernel2d ! row)")
      case False
      with "1.prems" show ?thesis by (simp add: compute_cols.simps)
    next
      case True
      show ?thesis
      proof (cases "int col < INT_MAX")
        case False
        with True "1.prems" show ?thesis by (simp add: compute_cols.simps [of _ _ _ col] Let_def)
      next
        case below: True
        from "1.prems" True below
        have "compute_cols kernelRadius sigma row (col + 1)
                (kernel2d[row := (kernel2d ! row)[col := gaussian (real row) (real (unat kernelRadius)) sigma
                    * gaussian (real col) (real (unat kernelRadius)) sigma]],
                 acc + gaussian (real row) (real (unat kernelRadius)) sigma
                    * gaussian (real col) (real (unat kernelRadius)) sigma) = Inr (kernel2d', acc')"
          by (simp add: compute_cols.simps [of _ _ _ col] Let_def)
        from "1.hyps" [OF True refl refl refl below this] show ?thesis by simp
      qed
    qed
  qed
  fix kernelRadius :: "32 word" and sigma acc acc' :: real and row :: nat
    and kernel2d kernel2d' :: kernel_type and r :: "kernel_type \<times> real"
  assume "row < length kernel2d"
    and "compute_cols kernelRadius sigma row 0 (kernel2d, acc) = Inr r" and "(kernel2d', acc') = r"
  then show "((kernelRadius, sigma, row + 1, kernel2d', acc'), (kernelRadius, sigma, row, kernel2d, acc))
           \<in> measure (\<lambda>(kernelRadius, sigma, row, kernel2d, acc). length kernel2d - row)"
    using same_length [of kernelRadius sigma row 0 kernel2d acc kernel2d' acc'] by auto
qed simp

declare compute_rows.simps [simp del]


text \<open>The second pair of loops: \<open>kernel2d[row][col] /= sum\<close>.\<close>

function normalize_cols :: "real \<Rightarrow> nat \<Rightarrow> nat \<Rightarrow> kernel_type \<Rightarrow> fault + kernel_type" where
  "normalize_cols acc row col kernel2d =
     (if col < length (kernel2d ! row) then
        let kernel2d' = kernel2d[row := (kernel2d ! row)[col := kernel2d ! row ! col / acc]]
        in if int col < INT_MAX then normalize_cols acc row (col + 1) kernel2d'
           else Inl Signed_overflow
      else Inr kernel2d)"
  by pat_completeness auto
termination
proof (relation "measure (\<lambda>(acc, row, col, kernel2d). length (kernel2d ! row) - col)")
  fix acc x :: real and row col :: nat and kernel2d kernel2d' :: kernel_type
  assume "col < length (kernel2d ! row)" and "kernel2d' = kernel2d[row := (kernel2d ! row)[col := x]]"
  moreover have "length (kernel2d[row := (kernel2d ! row)[col := x]] ! row) = length (kernel2d ! row)"
    by (cases "row < length kernel2d") (simp_all add: list_update_beyond)
  ultimately show "((acc, row, col + 1, kernel2d'), (acc, row, col, kernel2d))
           \<in> measure (\<lambda>(acc, row, col, kernel2d). length (kernel2d ! row) - col)"
    by simp
qed simp

declare normalize_cols.simps [simp del]

function normalize_rows :: "real \<Rightarrow> nat \<Rightarrow> kernel_type \<Rightarrow> fault + kernel_type" where
  "normalize_rows acc row kernel2d =
     (if row < length kernel2d then
        (case normalize_cols acc row 0 kernel2d of
           Inl f \<Rightarrow> Inl f
         | Inr kernel2d' \<Rightarrow>
             if int row < INT_MAX then normalize_rows acc (row + 1) kernel2d'
             else Inl Signed_overflow)
      else Inr kernel2d)"
  by pat_completeness auto
termination
proof (relation "measure (\<lambda>(acc, row, kernel2d). length kernel2d - row)")
  have same_length: "length kernel2d' = length kernel2d"
    if "normalize_cols acc row col kernel2d = Inr kernel2d'"
    for acc row col kernel2d kernel2d'
    using that
  proof (induction acc row col kernel2d rule: normalize_cols.induct)
    case (1 acc row col kernel2d)
    show ?case
    proof (cases "col < length (kernel2d ! row)")
      case False
      with "1.prems" show ?thesis by (simp add: normalize_cols.simps)
    next
      case True
      show ?thesis
      proof (cases "int col < INT_MAX")
        case False
        with True "1.prems" show ?thesis by (simp add: normalize_cols.simps [of _ _ col] Let_def)
      next
        case below: True
        from "1.prems" True below
        have "normalize_cols acc row (col + 1)
                (kernel2d[row := (kernel2d ! row)[col := kernel2d ! row ! col / acc]]) = Inr kernel2d'"
          by (simp add: normalize_cols.simps [of _ _ col] Let_def)
        from "1.IH" [OF True refl below this] show ?thesis by simp
      qed
    qed
  qed
  fix acc :: real and row :: nat and kernel2d kernel2d' :: kernel_type
  assume "row < length kernel2d" and "normalize_cols acc row 0 kernel2d = Inr kernel2d'"
  then show "((acc, row + 1, kernel2d'), (acc, row, kernel2d))
           \<in> measure (\<lambda>(acc, row, kernel2d). length kernel2d - row)"
    using same_length [of acc row 0 kernel2d kernel2d'] by auto
qed simp

declare normalize_rows.simps [simp del]

text \<open>
  \<open>produce2dGaussianKernel (unsigned int kernelRadius)\<close>. The side of the matrix is
  \<open>2 * kernelRadius + 1\<close> computed in \<open>unsigned int\<close>, hence modulo \<open>2^32\<close>.
\<close>

definition produce2dGaussianKernel :: "32 word \<Rightarrow> fault + kernel_type" where
  "produce2dGaussianKernel kernelRadius =
     (if kernelRadius = 0 then Inr [[1]]
      else
        let sigma = real (unat kernelRadius) / 2;
            kernel2d = replicate (unat (2 * kernelRadius + 1)) (replicate (unat (2 * kernelRadius + 1)) 0)
        in case compute_rows kernelRadius sigma 0 (kernel2d, 0) of
             Inl f \<Rightarrow> Inl f
           | Inr (kernel2d', acc) \<Rightarrow> normalize_rows acc 0 kernel2d')"

subsection \<open>Text streams\<close>

text \<open>
  \<open>LoadImage\<close> reads its file through \<open>std::ifstream\<close> and \<open>std::stringstream\<close>. These
  belong to the C++ library, not to the program; the operations the program uses are written
  out here as the C++ standard describes them. A stream is the text not yet read and one
  flag, \<open>good\<close>: no state bit (\<open>eofbit\<close>, \<open>failbit\<close>) is set. An operation on a stream that is
  not \<open>good\<close> reads nothing and leaves its target variable as it was.
\<close>

record istream =
  buf :: string
  good :: bool

definition open_file :: "string option \<Rightarrow> istream" where
  "open_file file =
     (case file of None \<Rightarrow> \<lparr>buf = [], good = False\<rparr> | Some text \<Rightarrow> \<lparr>buf = text, good = True\<rparr>)"

text \<open>\<open>isspace\<close> and \<open>isdigit\<close> in the "C" locale.\<close>

definition isspace :: "char \<Rightarrow> bool" where
  "isspace c = (c = CHR '' '' \<or> (9 \<le> (of_char c :: nat) \<and> (of_char c :: nat) \<le> 13))"

definition isdigit :: "char \<Rightarrow> bool" where
  "isdigit c = (48 \<le> (of_char c :: nat) \<and> (of_char c :: nat) \<le> 57)"

definition decimal :: "string \<Rightarrow> int" where
  "decimal ds = foldl (\<lambda>n c. 10 * n + (of_char c - 48)) 0 ds"

definition INT_MIN :: int where
  "INT_MIN = - 2147483648"

text \<open>
  A decimal number at the head of a text, as \<open>atoi\<close> and the extraction of an \<open>int\<close> read
  it: white space, an optional sign, then digits. Without digits the number is \<open>0\<close>.
\<close>

definition sign_of :: "string \<Rightarrow> bool" where
  "sign_of cs = (case cs of [] \<Rightarrow> False | c # rest \<Rightarrow> c = CHR ''-'')"

definition after_sign :: "string \<Rightarrow> string" where
  "after_sign cs = (case cs of [] \<Rightarrow> [] | c # rest \<Rightarrow> if c = CHR ''-'' \<or> c = CHR ''+'' then rest else cs)"

definition digits_of :: "string \<Rightarrow> string" where
  "digits_of cs = takeWhile isdigit (after_sign (dropWhile isspace cs))"

definition number_of :: "string \<Rightarrow> int" where
  "number_of cs =
     (if sign_of (dropWhile isspace cs) then - decimal (digits_of cs) else decimal (digits_of cs))"

text \<open>
  \<open>in >> s\<close> for a string: white space is skipped, then characters are taken up to the next
  white space. Reaching the end of the text sets \<open>eofbit\<close>; finding no character at all also
  sets \<open>failbit\<close> and leaves \<open>s\<close> as it was.
\<close>

definition read_word :: "istream \<Rightarrow> string \<Rightarrow> string \<times> istream" where
  "read_word ins s =
     (if \<not> good ins then (s, ins)
      else let rest = dropWhile isspace (buf ins) in
        if rest = [] then (s, \<lparr>buf = [], good = False\<rparr>)
        else (takeWhile (\<lambda>c. \<not> isspace c) rest,
              \<lparr>buf = dropWhile (\<lambda>c. \<not> isspace c) rest,
               good = (dropWhile (\<lambda>c. \<not> isspace c) rest \<noteq> [])\<rparr>))"

text \<open>
  \<open>getline (in, s)\<close>: the characters up to the next newline, which is consumed and not
  stored. Without a newline the rest of the text is taken and \<open>eofbit\<close> is set.
\<close>

definition getline :: "istream \<Rightarrow> string \<Rightarrow> string \<times> istream" where
  "getline ins s =
     (if \<not> good ins then (s, ins)
      else (takeWhile (\<lambda>c. c \<noteq> CHR 0x0A) (buf ins),
            case dropWhile (\<lambda>c. c \<noteq> CHR 0x0A) (buf ins) of
              [] \<Rightarrow> \<lparr>buf = [], good = False\<rparr>
            | newline # rest \<Rightarrow> \<lparr>buf = rest, good = True\<rparr>))"

text \<open>
  \<open>in >> v\<close> for an \<open>int\<close>. The variable is \<open>None\<close> while it is uninitialised. A field without
  digits stores \<open>0\<close> and fails; a number outside the range of \<open>int\<close> stores the nearest bound
  and fails.
\<close>

definition read_int :: "istream \<Rightarrow> int option \<Rightarrow> int option \<times> istream" where
  "read_int ins v =
     (if \<not> good ins then (v, ins)
      else if dropWhile isspace (buf ins) = [] then (v, \<lparr>buf = [], good = False\<rparr>)
      else
        let rest = dropWhile isdigit (after_sign (dropWhile isspace (buf ins))) in
          if digits_of (buf ins) = [] then (Some 0, \<lparr>buf = rest, good = False\<rparr>)
          else if number_of (buf ins) > INT_MAX then (Some INT_MAX, \<lparr>buf = rest, good = False\<rparr>)
          else if number_of (buf ins) < INT_MIN then (Some INT_MIN, \<lparr>buf = rest, good = False\<rparr>)
          else (Some (number_of (buf ins)), \<lparr>buf = rest, good = (rest \<noteq> [])\<rparr>))"

text \<open>
  \<open>in.read (data.data (), data.size ())\<close>: as many bytes as the buffer holds, or as many as
  are left; the rest of the buffer keeps its contents.
\<close>

definition read_bytes :: "istream \<Rightarrow> 8 word list \<Rightarrow> 8 word list \<times> istream" where
  "read_bytes ins data =
     (if \<not> good ins then (data, ins)
      else (map of_char (take (length data) (buf ins)) @ drop (length (buf ins)) data,
            \<lparr>buf = drop (length data) (buf ins), good = (length data \<le> length (buf ins))\<rparr>))"

subsection \<open>The image codec\<close>

text \<open>
  How a process ends: \<open>exit\<close> or a \<open>return\<close> from \<open>main\<close> with a status, undefined behaviour,
  or \<open>abort\<close> (a failed \<open>assert\<close>, an exception nobody catches).
\<close>

datatype stop = Exit int | Fault fault | Abort

text \<open>
  The comment loop of \<open>LoadImage\<close>:
  \<open>for (;;) { getline (in, s); if (s.empty ()) continue; if (s [0] != '#') break; }\<close>.
  It has no exit at the end of the file, so it may run forever: \<open>None\<close> is a loop that does
  not end.
\<close>

partial_function (option) skip_comments :: "istream \<Rightarrow> string \<Rightarrow> (string \<times> istream) option" where
  "skip_comments ins s =
     (case getline ins s of
        (s', ins') \<Rightarrow>
          if s' = [] then skip_comments ins' s'
          else if s' ! 0 \<noteq> CHR ''#'' then Some (s', ins')
          else skip_comments ins' s')"

declare skip_comments.simps [code]

text \<open>
  \<open>LoadImage\<close>. The variables \<open>width\<close>, \<open>height\<close> and \<open>maxColor\<close> start uninitialised.
  \<open>width * height * 3\<close> is \<open>int\<close> arithmetic; a negative product becomes a huge
  \<open>std::size_t\<close> and the vector's constructor throws.
\<close>

definition LoadImage :: "string option \<Rightarrow> (stop + Image) option" where
  "LoadImage file =
     (let (s, ins1) = read_word (open_file file) [] in
      if s \<noteq> ''P6'' then Some (Inl (Exit 1))
      else
        case skip_comments ins1 s of
          None \<Rightarrow> None
        | Some (s', ins2) \<Rightarrow>
            let (width, str1) = read_int \<lparr>buf = s', good = True\<rparr> None;
                (height, str2) = read_int str1 None;
                (maxColor, ins3) = read_int ins2 None
            in case maxColor of
                 None \<Rightarrow> Some (Inl (Fault Uninitialised))
               | Some m \<Rightarrow>
                   if m \<noteq> 255 then Some (Inl (Exit 1))
                   else
                     let (tmp, ins4) = getline ins3 [] in
                     case (width, height) of
                       (Some w, Some h) \<Rightarrow>
                         if w * h < INT_MIN \<or> INT_MAX < w * h
                            \<or> w * h * 3 < INT_MIN \<or> INT_MAX < w * h * 3
                         then Some (Inl (Fault Signed_overflow))
                         else if w * h * 3 < 0 then Some (Inl Abort)
                         else
                           let (data, ins5) = read_bytes ins4 (replicate (nat (w * h * 3)) 0)
                           in Some (Inr \<lparr>pixel = data, width = w, height = h\<rparr>)
                     | _ \<Rightarrow> Some (Inl (Fault Uninitialised)))"

text \<open>\<open>SaveImage\<close>: the contents of the file it writes. Numbers are printed in decimal.\<close>

definition digit_char :: "nat \<Rightarrow> char" where
  "digit_char n = ''0123456789'' ! n"

function show_nat :: "nat \<Rightarrow> string" where
  "show_nat n = (if n < 10 then [digit_char n] else show_nat (n div 10) @ [digit_char (n mod 10)])"
  by pat_completeness auto
termination
  by (relation "measure id") auto

declare show_nat.simps [simp del]

definition show_int :: "int \<Rightarrow> string" where
  "show_int i = (if i < 0 then CHR ''-'' # show_nat (nat (- i)) else show_nat (nat i))"

definition SaveImage :: "Image \<Rightarrow> string" where
  "SaveImage img =
     ''P6'' @ [CHR 0x0A] @ show_int (width img) @ '' '' @ show_int (height img) @ [CHR 0x0A]
       @ ''255'' @ [CHR 0x0A] @ map (\<lambda>b. char_of (unat b)) (pixel img)"




subsection \<open>The command line\<close>

text \<open>
  \<open>atoi\<close> of the C library: the number at the head of the text, \<open>0\<close> when there is none. A
  number outside the range of \<open>int\<close> is undefined behaviour.
\<close>

definition atoi :: "string \<Rightarrow> fault + int" where
  "atoi str =
     (if number_of str < INT_MIN \<or> INT_MAX < number_of str then Inl Unrepresentable
      else Inr (number_of str))"

subsection \<open>The device interface and the process\<close>

text \<open>
  The device interface is outside the program, so a run of \<open>main\<close> is a function of a
  \<open>world\<close>: the command line, what the enumeration calls report, the status every call site
  returns, the two files read, and the bytes the readback leaves in the host buffer. What
  \<open>main\<close> does to the outside is a list of events, in order: text written to the standard
  streams, device calls (with the arguments that depend on the run), and the file written.
\<close>

datatype resource =
  Output_image | Weights_buffer | Input_image | Command_queue | Compiled_kernel | Compiled_program
  | Context

datatype site =
    GetPlatformIDs_count | GetPlatformIDs_list
  | GetPlatformInfo_size nat | GetPlatformInfo_name nat
  | GetDeviceIDs_count | GetDeviceIDs_list
  | GetDeviceInfo_size nat | GetDeviceInfo_name nat
  | CreateContext
  | CreateProgramWithSource string
  | BuildProgram string
  | CreateKernel string
  | CreateImage2D_input Image
  | CreateImage2D_output int int
  | CreateBuffer "real list"
  | SetKernelArg nat
  | CreateCommandQueue
  | EnqueueNDRangeKernel nat nat
  | EnqueueReadImage nat nat
  | Release resource

datatype event = Printf string | Cout string | Cerr string | Call site | Write_file string string

record world =
  program_name :: string
  arguments :: "string list"
  platformIdCount :: "32 word"
  platform_name :: "nat \<Rightarrow> string"
  deviceIdCount :: "32 word"
  device_name :: "nat \<Rightarrow> string"
  status :: "site \<Rightarrow> int"
  kernel_source :: "string option"
  test_ppm :: "string option"
  device_pixels :: "8 word list"

type_synonym run = "(event list \<times> stop) option"

text \<open>\<open>CL_SUCCESS\<close> is \<open>0\<close> in \<open>CL/cl.h\<close>.\<close>

definition CL_SUCCESS :: int where
  "CL_SUCCESS = 0"

text \<open>
  A run is the events and how the process ended, or \<open>None\<close> when it does not end.
  \<open>followed_by evs rest\<close> is a run that first does \<open>evs\<close>. \<open>CheckError error rest\<close> is the
  call \<open>CheckError (error)\<close> followed by the rest of the program: on a status other than
  \<open>CL_SUCCESS\<close> it writes the status to \<open>std::cerr\<close> and calls \<open>std::exit (1)\<close>, so that the
  rest never runs. \<open>checked w c rest\<close> is a device call whose status goes to \<open>CheckError\<close>.
\<close>

definition followed_by :: "event list \<Rightarrow> run \<Rightarrow> run" where
  "followed_by evs rest = (case rest of None \<Rightarrow> None | Some (tr, s) \<Rightarrow> Some (evs @ tr, s))"

definition CheckError :: "int \<Rightarrow> run \<Rightarrow> run" where
  "CheckError error rest =
     (if error \<noteq> CL_SUCCESS
      then Some ([Cerr (''OpenCL call failed with error '' @ show_int error @ [CHR 0x0A])], Exit 1)
      else rest)"

definition checked :: "world \<Rightarrow> site \<Rightarrow> run \<Rightarrow> run" where
  "checked w c rest = followed_by [Call c] (CheckError (status w c) rest)"

definition LoadKernel :: "string option \<Rightarrow> string" where
  "LoadKernel file = (case file of None \<Rightarrow> [] | Some text \<Rightarrow> text)"

definition size_t_of_int :: "int \<Rightarrow> nat" where
  "size_t_of_int i = nat (i mod 2 ^ 64)"

text \<open>
  \<open>main\<close>, from its end to its beginning. The variables \<open>image\<close> and \<open>filter\<close> of the
  program are \<open>picture\<close> and \<open>weights\<close> here. First the readback (whose status is dropped),
  \<open>SaveImage\<close> and the releases.
\<close>

definition main_finish :: "world \<Rightarrow> Image \<Rightarrow> run" where
  "main_finish w picture =
     (let zeroed = replicate (length (pixel picture)) 0;
          result = picture\<lparr>pixel := take (length zeroed) (device_pixels w @ zeroed)\<rparr>
      in followed_by
           [Call (EnqueueReadImage (size_t_of_int (width result)) (size_t_of_int (height result)))]
           (case RGBAtoRGB result of
              Inl f \<Rightarrow> Some ([], Fault f)
            | Inr rgb \<Rightarrow>
                Some ([Write_file ''output.ppm'' (SaveImage rgb),
                       Call (Release Output_image), Call (Release Weights_buffer),
                       Call (Release Input_image), Call (Release Command_queue),
                       Call (Release Compiled_kernel), Call (Release Compiled_program),
                       Call (Release Context)], Exit 0)))"

text \<open>The device resources, the kernel arguments (statuses dropped), the queue, the dispatch.\<close>

definition main_pipeline :: "world \<Rightarrow> kernel_type \<Rightarrow> Image \<Rightarrow> run" where
  "main_pipeline w weights picture =
     checked w (CreateImage2D_input picture)
    (checked w (CreateImage2D_output (width picture) (height picture))
    (checked w (CreateBuffer (concat weights))
    (followed_by [Call (SetKernelArg 0), Call (SetKernelArg 1), Call (SetKernelArg 2)]
    (checked w CreateCommandQueue
    (checked w (EnqueueNDRangeKernel (size_t_of_int (width picture)) (size_t_of_int (height picture)))
    (main_finish w picture))))))"

text \<open>\<open>RGBtoRGBA (LoadImage ("test.ppm"))\<close>.\<close>

definition main_image :: "world \<Rightarrow> kernel_type \<Rightarrow> run" where
  "main_image w weights =
     (case LoadImage (test_ppm w) of
        None \<Rightarrow> None
      | Some (Inl s) \<Rightarrow> Some ([], s)
      | Some (Inr rgb) \<Rightarrow>
          (case RGBtoRGBA rgb of
             Inl f \<Rightarrow> Some ([], Fault f)
           | Inr picture \<Rightarrow> main_pipeline w weights picture))"

text \<open>The program is created from the text of \<open>kernels/image.cl\<close>, built with the radius, and its kernel looked up.\<close>

definition main_program :: "world \<Rightarrow> int \<Rightarrow> kernel_type \<Rightarrow> run" where
  "main_program w filterSize weights =
     checked w (CreateProgramWithSource (LoadKernel (kernel_source w)))
    (checked w (BuildProgram (''-D RADIUS='' @ show_int filterSize))
    (checked w (CreateKernel ''Filter'')
    (main_image w weights)))"

text \<open>
  The array \<open>float filter [2 * filterSize + 1][2 * filterSize + 1]\<close>, the kernel matrix, the
  \<open>assert\<close> on its size and the copy. The size of the array is \<open>int\<close> arithmetic and must be
  positive; \<open>produce2dGaussianKernel\<close> receives \<open>filterSize\<close> converted to \<open>unsigned int\<close>.
\<close>

definition main_filter :: "world \<Rightarrow> int \<Rightarrow> run" where
  "main_filter w filterSize =
     (if 2 * filterSize + 1 < INT_MIN \<or> INT_MAX < 2 * filterSize + 1 then Some ([], Fault Signed_overflow)
      else if 2 * filterSize + 1 \<le> 0 then Some ([], Fault Bad_array_size)
      else
        case produce2dGaussianKernel (word_of_int filterSize) of
          Inl f \<Rightarrow> Some ([], Fault f)
        | Inr k \<Rightarrow>
            (case k of
               [] \<Rightarrow> Some ([], Fault Out_of_range)
             | first_row # others \<Rightarrow>
                 if nat ((2 * filterSize + 1) * (2 * filterSize + 1)) \<noteq> length first_row * length k
                 then Some ([], Abort)
                 else main_program w filterSize
                        (map (\<lambda>i. map (\<lambda>j. k ! i ! j) [0..<length first_row]) [0..<length k])))"

text \<open>The context.\<close>

definition main_context :: "world \<Rightarrow> int \<Rightarrow> run" where
  "main_context w filterSize =
     checked w CreateContext
    (followed_by [Cout (''Context created'' @ [CHR 0x0A])]
    (main_filter w filterSize))"

text \<open>
  The devices of the first platform. The statuses of the enumeration calls are dropped. A
  name line is written piece by piece: its prefix first, then the two queries of
  \<open>GetDeviceName\<close>, then the name.
\<close>

definition main_devices :: "world \<Rightarrow> int \<Rightarrow> run" where
  "main_devices w filterSize =
     followed_by [Call GetDeviceIDs_count]
    (if deviceIdCount w = 0
     then Some ([Cerr (''No OpenCL devices found'' @ [CHR 0x0A])], Exit 1)
     else
       followed_by
         ([Cout (''Found '' @ show_nat (unat (deviceIdCount w)) @ '' device(s)'' @ [CHR 0x0A]),
           Call GetDeviceIDs_list]
          @ concat (map (\<lambda>i. [Cout ([CHR 0x09] @ '' ('' @ show_nat (i + 1) @ '') : ''),
                               Call (GetDeviceInfo_size i), Call (GetDeviceInfo_name i),
                               Cout (device_name w i @ [CHR 0x0A])])
                     [0..<unat (deviceIdCount w)]))
         (main_context w filterSize))"

text \<open>The platforms.\<close>

definition main_platforms :: "world \<Rightarrow> int \<Rightarrow> run" where
  "main_platforms w filterSize =
     followed_by [Call GetPlatformIDs_count]
    (if platformIdCount w = 0
     then Some ([Cerr (''No OpenCL platform found'' @ [CHR 0x0A])], Exit 1)
     else
       followed_by
         ([Cout (''Found '' @ show_nat (unat (platformIdCount w)) @ '' platform(s)'' @ [CHR 0x0A]),
           Call GetPlatformIDs_list]
          @ concat (map (\<lambda>i. [Cout ([CHR 0x09] @ '' ('' @ show_nat (i + 1) @ '') : ''),
                               Call (GetPlatformInfo_size i), Call (GetPlatformInfo_name i),
                               Cout (platform_name w i @ [CHR 0x0A])])
                     [0..<unat (platformIdCount w)]))
         (main_devices w filterSize))"

text \<open>\<open>main\<close>: \<open>argc\<close> is one more than the number of arguments.\<close>

definition main :: "world \<Rightarrow> run" where
  "main w =
     (if 1 + length (arguments w) \<noteq> 2
      then Some ([Printf (''Usage: '' @ program_name w @ '' <filter size>'' @ [CHR 0x0A])], Exit 1)
      else
        case atoi (arguments w ! 0) of
          Inl f \<Rightarrow> Some ([], Fault f)
        | Inr filterSize \<Rightarrow> main_platforms w filterSize)"

subsection \<open>Notions the claims are stated with\<close>

text \<open>
  The call sites of \<open>main\<close> whose status is passed to \<open>CheckError\<close>: the creation of the
  context, of the program, of the kernel, of the two images, of the weights buffer and of the
  command queue, the build, and the dispatch. The two enumeration calls, the name queries,
  \<open>clSetKernelArg\<close>, \<open>clEnqueueReadImage\<close> and the release calls are not among them.
\<close>

fun checked_site :: "site \<Rightarrow> bool" where
  "checked_site CreateContext = True"
| "checked_site (CreateProgramWithSource source) = True"
| "checked_site (BuildProgram options) = True"
| "checked_site (CreateKernel name) = True"
| "checked_site (CreateImage2D_input picture) = True"
| "checked_site (CreateImage2D_output w h) = True"
| "checked_site (CreateBuffer weights) = True"
| "checked_site CreateCommandQueue = True"
| "checked_site (EnqueueNDRangeKernel w h) = True"
| "checked_site c = False"

definition error_line :: "int \<Rightarrow> event" where
  "error_line error = Cerr (''OpenCL call failed with error '' @ show_int error @ [CHR 0x0A])"

definition release_events :: "event list" where
  "release_events =
     [Call (Release Output_image), Call (Release Weights_buffer), Call (Release Input_image),
      Call (Release Command_queue), Call (Release Compiled_kernel), Call (Release Compiled_program),
      Call (Release Context)]"











text \<open>Worlds to run the program in.\<close>

definition ok_world :: world where
  "ok_world =
     \<lparr>program_name = ''blur'', arguments = [''0''],
      platformIdCount = 1, platform_name = (\<lambda>i. ''P''),
      deviceIdCount = 1, device_name = (\<lambda>i. ''D''),
      status = (\<lambda>c. 0), kernel_source = Some ''kernel'',
      test_ppm = Some (''P6'' @ [CHR 0x0A] @ ''1 1'' @ [CHR 0x0A] @ ''255'' @ [CHR 0x0A] @ ''abc''),
      device_pixels = [1, 2, 3, 4]\<rparr>"

definition readback_fails :: world where
  "readback_fails = ok_world\<lparr>status := (\<lambda>c. case c of EnqueueReadImage w h \<Rightarrow> - 5 | _ \<Rightarrow> 0)\<rparr>"

definition dispatch_fails :: world where
  "dispatch_fails = ok_world\<lparr>status := (\<lambda>c. case c of EnqueueNDRangeKernel w h \<Rightarrow> - 5 | _ \<Rightarrow> 0)\<rparr>"





text \<open>
  Properties of a run, each stated for what remains of the run at some point of \<open>main\<close>, so
  that they can be carried through \<open>main\<close> call by call.
\<close>

definition releases_last :: "run \<Rightarrow> bool" where
  "releases_last r =
     (\<forall>tr s. r = Some (tr, s) \<longrightarrow>
        (if s = Exit 0
         then \<exists>pre. tr = pre @ release_events \<and> (\<forall>x. Call (Release x) \<notin> set pre)
         else \<forall>x. Call (Release x) \<notin> set tr))"

definition reports_failures :: "world \<Rightarrow> run \<Rightarrow> bool" where
  "reports_failures w r =
     (\<forall>tr s c. r = Some (tr, s) \<and> Call c \<in> set tr \<and> checked_site c \<and> status w c \<noteq> CL_SUCCESS \<longrightarrow>
        s = Exit 1 \<and> (\<exists>pre. tr = pre @ [Call c, error_line (status w c)]))"


definition prints_no_usage :: "run \<Rightarrow> bool" where
  "prints_no_usage r = (\<forall>tr s. r = Some (tr, s) \<longrightarrow> (\<forall>text. Printf text \<notin> set tr))"

section \<open>Properties\<close>

subsection \<open>The channel adapter\<close>

lemma drop_three:
  "i + 2 < length xs \<Longrightarrow> drop i xs = xs ! i # xs ! (i + 1) # xs ! (i + 2) # drop (i + 3) xs"
proof -
  assume a: "i + 2 < length xs"
  have "drop (i + 2) xs = xs ! (i + 2) # drop (i + 3) xs"
    using Cons_nth_drop_Suc [of "i + 2" xs] a by (simp add: numeral_3_eq_3)
  moreover have "drop (i + 1) xs = xs ! (i + 1) # drop (i + 2) xs"
    using Cons_nth_drop_Suc [of "i + 1" xs] a by simp
  moreover have "drop i xs = xs ! i # drop (i + 1) xs"
    using Cons_nth_drop_Suc [of i xs] a by simp
  ultimately show ?thesis by simp
qed

lemma RGBtoRGBA_loop_eq:
  "(length inp - i) mod 3 = 0 \<Longrightarrow> RGBtoRGBA_loop inp i out = Inr (out @ pad_alpha (drop i inp))"
proof (induction inp i out rule: RGBtoRGBA_loop.induct)
  case (1 inp i out)
  show ?case
  proof (cases "i < length inp")
    case False
    then show ?thesis by (subst RGBtoRGBA_loop.simps) simp
  next
    case True
    with "1.prems" have three: "i + 2 < length inp" by presburger
    then have "(length inp - (i + 3)) mod 3 = 0" using "1.prems" by presburger
    with "1.IH" [OF True three]
    have "RGBtoRGBA_loop inp (i + 3) (out @ [inp ! (i + 0), inp ! (i + 1), inp ! (i + 2), 0])
            = Inr ((out @ [inp ! (i + 0), inp ! (i + 1), inp ! (i + 2), 0]) @ pad_alpha (drop (i + 3) inp))"
      by simp
    then show ?thesis using True three
      by (subst RGBtoRGBA_loop.simps) (simp add: drop_three [OF three])
  qed
qed


lemma RGBAtoRGB_loop_eq:
  "(length inp - i) mod 4 = 0 \<Longrightarrow> RGBAtoRGB_loop inp i out = Inr (out @ drop_alpha (drop i inp))"
proof (induction inp i out rule: RGBAtoRGB_loop.induct)
  case (1 inp i out)
  show ?case
  proof (cases "i < length inp")
    case False
    then show ?thesis by (subst RGBAtoRGB_loop.simps) simp
  next
    case True
    with "1.prems" have four: "i + 3 < length inp" by presburger
    then have three: "i + 2 < length inp" by simp
    have rest: "(length inp - (i + 4)) mod 4 = 0" using four "1.prems" by presburger
    have d: "drop i inp = inp ! i # inp ! (i + 1) # inp ! (i + 2) # inp ! (i + 3) # drop (i + 4) inp"
      using drop_three [OF three] Cons_nth_drop_Suc [OF four] by (simp add: numeral_Bit0 numeral_3_eq_3)
    from "1.IH" [OF True three rest]
    show ?thesis using True three
      by (subst RGBAtoRGB_loop.simps) (simp add: d)
  qed
qed

lemma length_pad_alpha: "length xs mod 3 = 0 \<Longrightarrow> 3 * length (pad_alpha xs) = 4 * length xs"
  by (induction xs rule: pad_alpha.induct) auto

lemma drop_alpha_pad_alpha: "length xs mod 3 = 0 \<Longrightarrow> drop_alpha (pad_alpha xs) = xs"
  by (induction xs rule: pad_alpha.induct) auto

lemma pad_alpha_nth:
  "k < length xs div 3 \<Longrightarrow>
     pad_alpha xs ! (4 * k) = xs ! (3 * k) \<and> pad_alpha xs ! (4 * k + 1) = xs ! (3 * k + 1) \<and>
     pad_alpha xs ! (4 * k + 2) = xs ! (3 * k + 2) \<and> pad_alpha xs ! (4 * k + 3) = 0"
proof (induction xs arbitrary: k rule: pad_alpha.induct)
  case (1 r g b rest)
  show ?case
  proof (cases k)
    case 0
    then show ?thesis by simp
  next
    case (Suc m)
    with "1.prems" have "m < length rest div 3" by simp
    from "1.IH" [OF this] show ?thesis
      by (simp add: Suc numeral_3_eq_3 numeral_Bit0)
  qed
qed simp_all

lemma drop_alpha_short: "length ys < 4 \<Longrightarrow> drop_alpha ys = []"
  by (cases ys rule: drop_alpha.cases) simp_all

lemma drop_alpha_cong:
  "length xs = length ys \<Longrightarrow> (\<forall>j<length xs. j mod 4 \<noteq> 3 \<longrightarrow> ys ! j = xs ! j) \<Longrightarrow>
     drop_alpha ys = drop_alpha xs"
proof (induction xs arbitrary: ys rule: drop_alpha.induct)
  case (1 r g b a rest)
  from "1.prems"(1) obtain r' t1 where t1: "ys = r' # t1" "length t1 = length rest + 3"
    by (cases ys) auto
  then obtain g' t2 where t2: "t1 = g' # t2" "length t2 = length rest + 2"
    by (cases t1) auto
  then obtain b' t3 where t3: "t2 = b' # t3" "length t3 = length rest + 1"
    by (cases t2) auto
  then obtain a' rest' where t4: "t3 = a' # rest'" "length rest' = length rest"
    by (cases t3) auto
  have ys: "ys = r' # g' # b' # a' # rest'" and len: "length rest = length rest'"
    using t1 t2 t3 t4 by simp_all
  have same: "ys ! j = (r # g # b # a # rest) ! j" if "j < length rest + 4" "j mod 4 \<noteq> 3" for j
  proof -
    from that(1) have "j < length (r # g # b # a # rest)" by simp
    with "1.prems"(2) that(2) show ?thesis by blast
  qed
  have "rest' ! j = rest ! j" if "j < length rest" "j mod 4 \<noteq> 3" for j
  proof -
    have "(j + 4) mod 4 \<noteq> 3" using that(2) by simp
    with same [of "j + 4"] that(1) have "ys ! (j + 4) = (r # g # b # a # rest) ! (j + 4)" by simp
    moreover have "j + 4 = Suc (Suc (Suc (Suc j)))" by simp
    ultimately show ?thesis by (simp add: ys)
  qed
  then have tl: "drop_alpha rest' = drop_alpha rest"
    using "1.IH" [OF len] by simp
  have "r' = r" "g' = g" "b' = b"
    using same [of 0] same [of 1] same [of 2] by (simp_all add: ys)
  then show ?case by (simp add: ys tl)
qed (simp_all add: drop_alpha_short)


lemma RGBtoRGBA_eq:
  "length (pixel input) mod 3 = 0 \<Longrightarrow>
     RGBtoRGBA input = Inr \<lparr>pixel = pad_alpha (pixel input), width = width input, height = height input\<rparr>"
  by (simp add: RGBtoRGBA_def RGBtoRGBA_loop_eq)

lemma RGBAtoRGB_eq:
  "length (pixel input) mod 4 = 0 \<Longrightarrow>
     RGBAtoRGB input = Inr \<lparr>pixel = drop_alpha (pixel input), width = width input, height = height input\<rparr>"
  by (simp add: RGBAtoRGB_def RGBAtoRGB_loop_eq)

lemma length_pad_alpha_mod4: "length xs mod 3 = 0 \<Longrightarrow> length (pad_alpha xs) mod 4 = 0"
  using length_pad_alpha [of xs] by presburger


text \<open>
  Claim C9. For every three-channel buffer (a byte sequence whose length is a multiple of
  three) \<open>RGBtoRGBA\<close> returns, without a fault, an image of the same width and height
  whose byte sequence is four thirds as long as the input's; its bytes \<open>4k\<close>, \<open>4k+1\<close>,
  \<open>4k+2\<close> are the input's bytes \<open>3k\<close>, \<open>3k+1\<close>, \<open>3k+2\<close>, and every inserted fourth
  byte \<open>4k+3\<close> is \<open>0\<close>.
\<close>

theorem RGBtoRGBA_layout:
  assumes "length (pixel input) mod 3 = 0"
  shows "\<exists>output. RGBtoRGBA input = Inr output \<and>
           width output = width input \<and> height output = height input \<and>
           3 * length (pixel output) = 4 * length (pixel input) \<and>
           (\<forall>k<length (pixel input) div 3.
              pixel output ! (4 * k) = pixel input ! (3 * k) \<and>
              pixel output ! (4 * k + 1) = pixel input ! (3 * k + 1) \<and>
              pixel output ! (4 * k + 2) = pixel input ! (3 * k + 2) \<and>
              pixel output ! (4 * k + 3) = 0)"
proof -
  let ?output = "\<lparr>pixel = pad_alpha (pixel input), width = width input, height = height input\<rparr>"
  have "RGBtoRGBA input = Inr ?output"
    using assms by (rule RGBtoRGBA_eq)
  moreover have "width ?output = width input" "height ?output = height input"
    by simp_all
  moreover have "3 * length (pixel ?output) = 4 * length (pixel input)"
    using assms by (simp add: length_pad_alpha)
  moreover have "\<forall>k<length (pixel input) div 3.
              pixel ?output ! (4 * k) = pixel input ! (3 * k) \<and>
              pixel ?output ! (4 * k + 1) = pixel input ! (3 * k + 1) \<and>
              pixel ?output ! (4 * k + 2) = pixel input ! (3 * k + 2) \<and>
              pixel ?output ! (4 * k + 3) = 0"
    using pad_alpha_nth [of _ "pixel input"] by (simp del: One_nat_def)
  ultimately show ?thesis by blast
qed

theorem RGBtoRGBA_layout_witness:
  "length (pixel \<lparr>pixel = [1, 2, 3, 4, 5, 6], width = 2, height = 1\<rparr>) mod 3 = 0 \<and>
   (\<exists>output. RGBtoRGBA \<lparr>pixel = [1, 2, 3, 4, 5, 6], width = 2, height = 1\<rparr> = Inr output \<and>
      width output = 2 \<and> height output = 1 \<and> 3 * length (pixel output) = 4 * 6 \<and>
      (\<forall>k<2. pixel output ! (4 * k) = [1, 2, 3, 4, 5, 6] ! (3 * k) \<and>
              pixel output ! (4 * k + 1) = [1, 2, 3, 4, 5, 6] ! (3 * k + 1) \<and>
              pixel output ! (4 * k + 2) = [1, 2, 3, 4, 5, 6] ! (3 * k + 2) \<and>
              pixel output ! (4 * k + 3) = 0))"
  using RGBtoRGBA_layout [of "\<lparr>pixel = [1, 2, 3, 4, 5, 6], width = 2, height = 1\<rparr>"]
  by simp

text \<open>
  Claim C7. For every three-channel buffer, \<open>RGBAtoRGB\<close> applied to the result of
  \<open>RGBtoRGBA\<close> gives the original image back: the same width, height and byte sequence.
  The fourth bytes play no part: any four-channel image of the same size that agrees with
  the padded one on the three colour bytes of every pixel, whatever its fourth bytes are,
  is mapped to the original image as well.
\<close>

theorem RGB_RGBA_round_trip:
  assumes "length (pixel input) mod 3 = 0"
  shows "\<exists>rgba. RGBtoRGBA input = Inr rgba \<and> RGBAtoRGB rgba = Inr input \<and>
           (\<forall>other. length (pixel other) = length (pixel rgba) \<and>
                    (\<forall>j<length (pixel rgba). j mod 4 \<noteq> 3 \<longrightarrow> pixel other ! j = pixel rgba ! j) \<and>
                    width other = width input \<and> height other = height input
                    \<longrightarrow> RGBAtoRGB other = Inr input)"
proof -
  let ?rgba = "\<lparr>pixel = pad_alpha (pixel input), width = width input, height = height input\<rparr>"
  have four: "length (pixel ?rgba) mod 4 = 0"
    using assms by (simp add: length_pad_alpha_mod4)
  have fwd: "RGBtoRGBA input = Inr ?rgba"
    using assms by (rule RGBtoRGBA_eq)
  have bwd: "RGBAtoRGB ?rgba = Inr input"
    using assms by (simp add: RGBAtoRGB_eq [OF four] drop_alpha_pad_alpha)
  have any_alpha: "RGBAtoRGB other = Inr input"
    if len: "length (pixel other) = length (pixel ?rgba)"
      and same: "\<forall>j<length (pixel ?rgba). j mod 4 \<noteq> 3 \<longrightarrow> pixel other ! j = pixel ?rgba ! j"
      and dims: "width other = width input" "height other = height input"
    for other :: Image
  proof -
    have "length (pixel other) mod 4 = 0" using four len by simp
    moreover have "drop_alpha (pixel other) = drop_alpha (pixel ?rgba)"
      using drop_alpha_cong [of "pixel ?rgba" "pixel other"] len same by simp
    ultimately show ?thesis
      using assms dims by (simp add: RGBAtoRGB_eq drop_alpha_pad_alpha)
  qed
  show ?thesis
    using fwd bwd any_alpha by blast
qed

theorem RGB_RGBA_round_trip_witness:
  "length (pixel \<lparr>pixel = [9, 8, 7], width = 1, height = 1\<rparr>) mod 3 = 0 \<and>
   (\<exists>rgba. RGBtoRGBA \<lparr>pixel = [9, 8, 7], width = 1, height = 1\<rparr> = Inr rgba \<and>
      RGBAtoRGB rgba = Inr \<lparr>pixel = [9, 8, 7], width = 1, height = 1\<rparr> \<and>
      RGBAtoRGB \<lparr>pixel = [9, 8, 7, 255], width = 1, height = 1\<rparr>
        = Inr \<lparr>pixel = [9, 8, 7], width = 1, height = 1\<rparr>)"
proof -
  let ?rgb = "\<lparr>pixel = [9, 8, 7], width = 1, height = 1\<rparr>"
  let ?opaque = "\<lparr>pixel = [9, 8, 7, 255], width = 1, height = 1\<rparr>"
  have h: "length (pixel ?rgb) mod 3 = 0" by simp
  from RGB_RGBA_round_trip [OF h] obtain rgba
    where fwd: "RGBtoRGBA ?rgb = Inr rgba" and bwd: "RGBAtoRGB rgba = Inr ?rgb"
      and any_alpha: "\<And>other. length (pixel other) = length (pixel rgba) \<Longrightarrow>
                    (\<forall>j<length (pixel rgba). j mod 4 \<noteq> 3 \<longrightarrow> pixel other ! j = pixel rgba ! j) \<Longrightarrow>
                    width other = width ?rgb \<Longrightarrow> height other = height ?rgb
                    \<Longrightarrow> RGBAtoRGB other = Inr ?rgb"
    by blast
  have "RGBtoRGBA ?rgb = Inr \<lparr>pixel = [9, 8, 7, 0], width = 1, height = 1\<rparr>"
    by (simp add: RGBtoRGBA_def RGBtoRGBA_loop.simps)
  with fwd have rgba: "rgba = \<lparr>pixel = [9, 8, 7, 0], width = 1, height = 1\<rparr>" by simp
  have "\<forall>j<4. j mod 4 \<noteq> 3 \<longrightarrow> [9, 8, 7, 255 :: 8 word] ! j = [9, 8, 7, 0] ! j"
    by (auto simp: nth_Cons split: nat.splits)
  then have "RGBAtoRGB ?opaque = Inr ?rgb"
    using any_alpha [of ?opaque] by (simp add: rgba)
  with h fwd bwd show ?thesis by blast
qed


subsection \<open>The kernel builder\<close>

lemma compute_cols_eq:
  assumes "row < length k" and "length (k ! row) = n" and "int n \<le> INT_MAX" and "col \<le> n"
  shows "compute_cols r sigma row col (k, acc) =
           Inr (k[row := take col (k ! row) @
                          map (\<lambda>c. gaussian (real row) (real (unat r)) sigma
                                    * gaussian (real c) (real (unat r)) sigma) [col..<n]],
                acc + (\<Sum>c = col..<n. gaussian (real row) (real (unat r)) sigma
                                    * gaussian (real c) (real (unat r)) sigma))"
  using assms
proof (induction "n - col" arbitrary: col k acc)
  case 0
  then have "col = n" by simp
  with "0.prems" show ?case
    by (subst compute_cols.simps) simp
next
  case (Suc d)
  let ?x = "gaussian (real row) (real (unat r)) sigma * gaussian (real col) (real (unat r)) sigma"
  let ?k = "k[row := (k ! row)[col := ?x]]"
  from Suc have col: "col < n" by simp
  with Suc.prems have below: "int col < INT_MAX" by simp
  have d: "d = n - (col + 1)" using Suc.hyps(2) by simp
  have row': "?k ! row = (k ! row)[col := ?x]" using Suc.prems by simp
  have step: "compute_cols r sigma row col (k, acc) = compute_cols r sigma row (col + 1) (?k, acc + ?x)"
    using col below Suc.prems by (subst compute_cols.simps) (simp add: Let_def)
  have "compute_cols r sigma row (col + 1) (?k, acc + ?x) =
           Inr (?k[row := take (col + 1) (?k ! row) @
                          map (\<lambda>c. gaussian (real row) (real (unat r)) sigma
                                    * gaussian (real c) (real (unat r)) sigma) [col + 1..<n]],
                acc + ?x + (\<Sum>c = col + 1..<n. gaussian (real row) (real (unat r)) sigma
                                    * gaussian (real c) (real (unat r)) sigma))"
    using Suc.prems col by (intro Suc.hyps(1) [OF d]) (simp_all add: row')
  also have "take (col + 1) (?k ! row) = take col (k ! row) @ [?x]"
    using col Suc.prems by (simp add: row' take_Suc_conv_app_nth)
  finally show ?case
    using col by (simp add: step upt_conv_Cons sum.atLeast_Suc_lessThan add.assoc)
qed

lemma compute_rows_eq:
  assumes "length k = n" and "\<forall>i<n. length (k ! i) = n" and "int n \<le> INT_MAX" and "row \<le> n"
  shows "compute_rows r sigma row (k, acc) =
           Inr (take row k @
                  map (\<lambda>i. map (\<lambda>c. gaussian (real i) (real (unat r)) sigma
                                    * gaussian (real c) (real (unat r)) sigma) [0..<n]) [row..<n],
                acc + (\<Sum>i = row..<n. \<Sum>c = 0..<n. gaussian (real i) (real (unat r)) sigma
                                    * gaussian (real c) (real (unat r)) sigma))"
  using assms
proof (induction "n - row" arbitrary: row k acc)
  case 0
  then have "row = n" by simp
  with "0.prems" show ?case
    by (subst compute_rows.simps) simp
next
  case (Suc d)
  let ?cells = "map (\<lambda>c. gaussian (real row) (real (unat r)) sigma
                                    * gaussian (real c) (real (unat r)) sigma) [0..<n]"
  let ?s = "\<Sum>c = 0..<n. gaussian (real row) (real (unat r)) sigma
                                    * gaussian (real c) (real (unat r)) sigma"
  let ?k = "k[row := ?cells]"
  from Suc have row: "row < n" by simp
  with Suc.prems have below: "int row < INT_MAX" by simp
  have d: "d = n - (row + 1)" using Suc.hyps(2) by simp
  have cols: "compute_cols r sigma row 0 (k, acc) = Inr (?k, acc + ?s)"
    using compute_cols_eq [of row k n 0 r sigma acc] row Suc.prems by simp
  have step: "compute_rows r sigma row (k, acc) = compute_rows r sigma (row + 1) (?k, acc + ?s)"
    using row below Suc.prems by (subst compute_rows.simps) (simp add: cols)
  have lens: "\<forall>i<n. length (?k ! i) = n"
    using Suc.prems row by (auto simp: nth_list_update)
  have "compute_rows r sigma (row + 1) (?k, acc + ?s) =
           Inr (take (row + 1) ?k @
                  map (\<lambda>i. map (\<lambda>c. gaussian (real i) (real (unat r)) sigma
                                    * gaussian (real c) (real (unat r)) sigma) [0..<n]) [row + 1..<n],
                acc + ?s + (\<Sum>i = row + 1..<n. \<Sum>c = 0..<n. gaussian (real i) (real (unat r)) sigma
                                    * gaussian (real c) (real (unat r)) sigma))"
    using Suc.prems row lens by (intro Suc.hyps(1) [OF d]) simp_all
  also have "take (row + 1) ?k = take row k @ [?cells]"
    using row Suc.prems by (simp add: take_Suc_conv_app_nth)
  finally show ?case
    using row by (simp add: step upt_conv_Cons sum.atLeast_Suc_lessThan add.assoc)
qed

lemma normalize_cols_eq:
  assumes "row < length k" and "length (k ! row) = n" and "int n \<le> INT_MAX" and "col \<le> n"
  shows "normalize_cols acc row col k =
           Inr (k[row := take col (k ! row) @ map (\<lambda>v. v / acc) (drop col (k ! row))])"
  using assms
proof (induction "n - col" arbitrary: col k)
  case 0
  then have "col = n" by simp
  with "0.prems" show ?case
    by (subst normalize_cols.simps) simp
next
  case (Suc d)
  let ?k = "k[row := (k ! row)[col := k ! row ! col / acc]]"
  from Suc have col: "col < n" by simp
  with Suc.prems have below: "int col < INT_MAX" by simp
  have d: "d = n - (col + 1)" using Suc.hyps(2) by simp
  have row': "?k ! row = (k ! row)[col := k ! row ! col / acc]" using Suc.prems by simp
  have step: "normalize_cols acc row col k = normalize_cols acc row (col + 1) ?k"
    using col below Suc.prems by (subst normalize_cols.simps) (simp add: Let_def)
  have "normalize_cols acc row (col + 1) ?k =
           Inr (?k[row := take (col + 1) (?k ! row) @ map (\<lambda>v. v / acc) (drop (col + 1) (?k ! row))])"
    using Suc.prems col by (intro Suc.hyps(1) [OF d]) (simp_all add: row')
  also have "take (col + 1) (?k ! row) = take col (k ! row) @ [k ! row ! col / acc]"
    using col Suc.prems by (simp add: row' take_Suc_conv_app_nth)
  also have "drop (col + 1) (?k ! row) = drop (col + 1) (k ! row)"
    by (simp add: row')
  finally have run: "normalize_cols acc row (col + 1) ?k =
           Inr (?k[row := (take col (k ! row) @ [k ! row ! col / acc]) @
                            map (\<lambda>v. v / acc) (drop (col + 1) (k ! row))])" .
  have "drop col (k ! row) = k ! row ! col # drop (col + 1) (k ! row)"
    using col Suc.prems Cons_nth_drop_Suc [of col "k ! row"] by simp
  with run show ?case
    by (simp add: step)
qed

lemma normalize_rows_eq:
  assumes "length k = n" and "\<forall>i<n. int (length (k ! i)) \<le> INT_MAX" and "int n \<le> INT_MAX" and "row \<le> n"
  shows "normalize_rows acc row k = Inr (take row k @ map (map (\<lambda>v. v / acc)) (drop row k))"
  using assms
proof (induction "n - row" arbitrary: row k)
  case 0
  then have "row = n" by simp
  with "0.prems" show ?case
    by (subst normalize_rows.simps) simp
next
  case (Suc d)
  let ?k = "k[row := map (\<lambda>v. v / acc) (k ! row)]"
  from Suc have row: "row < n" by simp
  with Suc.prems have below: "int row < INT_MAX" by simp
  have d: "d = n - (row + 1)" using Suc.hyps(2) by simp
  have cols: "normalize_cols acc row 0 k = Inr ?k"
    using normalize_cols_eq [of row k "length (k ! row)" 0 acc] row Suc.prems by simp
  have step: "normalize_rows acc row k = normalize_rows acc (row + 1) ?k"
    using row below Suc.prems by (subst normalize_rows.simps) (simp add: cols)
  have lens: "\<forall>i<n. int (length (?k ! i)) \<le> INT_MAX"
    using Suc.prems row by (auto simp: nth_list_update)
  have "normalize_rows acc (row + 1) ?k =
          Inr (take (row + 1) ?k @ map (map (\<lambda>v. v / acc)) (drop (row + 1) ?k))"
    using Suc.prems row lens by (intro Suc.hyps(1) [OF d]) simp_all
  also have "take (row + 1) ?k = take row k @ [map (\<lambda>v. v / acc) (k ! row)]"
    using row Suc.prems by (simp add: take_Suc_conv_app_nth)
  also have "drop (row + 1) ?k = drop (row + 1) k"
    by simp
  finally have run: "normalize_rows acc (row + 1) ?k =
          Inr ((take row k @ [map (\<lambda>v. v / acc) (k ! row)]) @
                 map (map (\<lambda>v. v / acc)) (drop (row + 1) k))" .
  have "drop row k = k ! row # drop (row + 1) k"
    using row Suc.prems Cons_nth_drop_Suc [of row k] by simp
  with run show ?case
    by (simp add: step)
qed

lemma kernel_for_zero: "produce2dGaussianKernel 0 = Inr [[1]]"
  by (simp add: produce2dGaussianKernel_def)

lemma gaussian_pos: "0 < gaussian x mu sigma"
  by (simp add: gaussian_def Let_def)

lemma gaussian_square: "gaussian x mu sigma = exp (- 0.5 * ((x - mu) / sigma)\<^sup>2)"
  by (simp add: gaussian_def Let_def power2_eq_square)

lemma produce2dGaussianKernel_eq:
  assumes "kernelRadius \<noteq> 0" and "int (unat (2 * kernelRadius + 1)) \<le> INT_MAX"
  shows "produce2dGaussianKernel kernelRadius =
           Inr (map (\<lambda>row. map (\<lambda>col.
                  gaussian (real row) (real (unat kernelRadius)) (real (unat kernelRadius) / 2)
                    * gaussian (real col) (real (unat kernelRadius)) (real (unat kernelRadius) / 2)
                    / (\<Sum>i = 0..<unat (2 * kernelRadius + 1). \<Sum>c = 0..<unat (2 * kernelRadius + 1).
                         gaussian (real i) (real (unat kernelRadius)) (real (unat kernelRadius) / 2)
                           * gaussian (real c) (real (unat kernelRadius)) (real (unat kernelRadius) / 2)))
                  [0..<unat (2 * kernelRadius + 1)]) [0..<unat (2 * kernelRadius + 1)])"
proof -
  let ?n = "unat (2 * kernelRadius + 1)"
  let ?sigma = "real (unat kernelRadius) / 2"
  let ?w = "\<lambda>row col. gaussian (real row) (real (unat kernelRadius)) ?sigma
                    * gaussian (real col) (real (unat kernelRadius)) ?sigma"
  let ?S = "\<Sum>i = 0..<?n. \<Sum>c = 0..<?n. ?w i c"
  let ?filled = "map (\<lambda>row. map (\<lambda>col. ?w row col) [0..<?n]) [0..<?n]"
  have fill: "compute_rows kernelRadius ?sigma 0 (replicate ?n (replicate ?n 0), 0) = Inr (?filled, ?S)"
    using compute_rows_eq [of "replicate ?n (replicate ?n 0)" ?n 0 kernelRadius ?sigma 0] assms(2)
    by simp
  have norm: "normalize_rows ?S 0 ?filled = Inr (map (map (\<lambda>v. v / ?S)) ?filled)"
    using normalize_rows_eq [of ?filled ?n 0 ?S] assms(2) by simp
  have "produce2dGaussianKernel kernelRadius = Inr (map (map (\<lambda>v. v / ?S)) ?filled)"
    unfolding produce2dGaussianKernel_def Let_def
    using assms(1) by (simp only: fill norm if_False sum.case prod.case)
  then show ?thesis
    by (simp add: comp_def)
qed

lemma side_in_range:
  "unat kernelRadius < 2 ^ 30 \<Longrightarrow> unat (2 * kernelRadius + 1 :: 32 word) = 2 * unat kernelRadius + 1
     \<and> int (unat (2 * kernelRadius + 1 :: 32 word)) \<le> INT_MAX"
proof -
  assume small: "unat kernelRadius < 2 ^ 30"
  then have side: "unat (2 * kernelRadius + 1 :: 32 word) = 2 * unat kernelRadius + 1"
    by (simp add: unat_word_ariths)
  from small have "unat kernelRadius < 1073741824" by simp
  then have "int (2 * unat kernelRadius + 1) \<le> 2147483647"
    by linarith
  with side show ?thesis
    by (simp only: INT_MAX_def)
qed

lemma kernel_closed_form:
  assumes "kernelRadius \<noteq> 0" and "unat kernelRadius < 2 ^ 30" and "n = 2 * unat kernelRadius + 1"
  shows "produce2dGaussianKernel kernelRadius =
           Inr (map (\<lambda>row. map (\<lambda>col.
                  gaussian (real row) (real (unat kernelRadius)) (real (unat kernelRadius) / 2)
                    * gaussian (real col) (real (unat kernelRadius)) (real (unat kernelRadius) / 2)
                    / (\<Sum>i = 0..<n. \<Sum>c = 0..<n.
                         gaussian (real i) (real (unat kernelRadius)) (real (unat kernelRadius) / 2)
                           * gaussian (real c) (real (unat kernelRadius)) (real (unat kernelRadius) / 2)))
                  [0..<n]) [0..<n])"
proof -
  note side = side_in_range [OF assms(2), folded assms(3)]
  have n: "unat (2 * kernelRadius + 1) = n"
    using side by (rule conjunct1)
  have "int (unat (2 * kernelRadius + 1)) \<le> INT_MAX"
    using side by (rule conjunct2)
  from produce2dGaussianKernel_eq [OF assms(1) this] show ?thesis
    by (simp only: n)
qed

lemma weight_sum_pos:
  "0 < n \<Longrightarrow> 0 < (\<Sum>i = 0..<n. \<Sum>c = 0..<(n::nat). gaussian (real i) mu sigma * gaussian (real c) mu sigma)"
  by (intro sum_pos) (simp_all add: gaussian_pos)

lemma kernel_nth:
  assumes "kernelRadius \<noteq> 0" and "unat kernelRadius < 2 ^ 30" and "n = 2 * unat kernelRadius + 1"
    and "produce2dGaussianKernel kernelRadius = Inr k"
  shows "length k = n"
    and "row < n \<Longrightarrow> length (k ! row) = n"
    and "row < n \<Longrightarrow> col < n \<Longrightarrow>
           k ! row ! col =
             gaussian (real row) (real (unat kernelRadius)) (real (unat kernelRadius) / 2)
               * gaussian (real col) (real (unat kernelRadius)) (real (unat kernelRadius) / 2)
               / (\<Sum>i = 0..<n. \<Sum>c = 0..<n.
                    gaussian (real i) (real (unat kernelRadius)) (real (unat kernelRadius) / 2)
                      * gaussian (real c) (real (unat kernelRadius)) (real (unat kernelRadius) / 2))"
  using kernel_closed_form [OF assms(1-3)] assms(4) by auto

lemma gaussian_mono:
  assumes "\<bar>x - mu\<bar> \<le> \<bar>y - mu\<bar>"
  shows "gaussian y mu sigma \<le> gaussian x mu sigma"
proof -
  have "\<bar>(x - mu) / sigma\<bar> \<le> \<bar>(y - mu) / sigma\<bar>"
    using assms by (simp add: divide_right_mono)
  then have "((x - mu) / sigma)\<^sup>2 \<le> ((y - mu) / sigma)\<^sup>2"
    by (simp only: abs_le_square_iff)
  then show ?thesis
    by (simp add: gaussian_square)
qed

lemma gaussian_strict_mono:
  assumes "\<bar>x - mu\<bar> < \<bar>y - mu\<bar>" and "0 < sigma"
  shows "gaussian y mu sigma < gaussian x mu sigma"
proof -
  have "\<bar>(x - mu) / sigma\<bar> < \<bar>(y - mu) / sigma\<bar>"
    using assms by (simp add: divide_strict_right_mono)
  then have "\<not> \<bar>(y - mu) / sigma\<bar> \<le> \<bar>(x - mu) / sigma\<bar>" by simp
  then have "((x - mu) / sigma)\<^sup>2 < ((y - mu) / sigma)\<^sup>2"
    by (simp only: abs_le_square_iff not_le)
  then show ?thesis
    by (simp add: gaussian_square)
qed


text \<open>
  Where the side exceeds \<open>INT_MAX\<close>, that is for the radii from \<open>2^30\<close> up to \<open>2^31 - 1\<close>,
  the counter of the first inner loop overflows before the row is filled.
\<close>

lemma compute_cols_overflow:
  assumes "row < length k" and "INT_MAX < int (length (k ! row))" and "int col \<le> INT_MAX"
  shows "compute_cols r sigma row col (k, acc) = Inl Signed_overflow"
  using assms
proof (induction "nat INT_MAX - col" arbitrary: col k acc)
  case 0
  then have top: "int col = INT_MAX" by simp
  with "0.prems" show ?case
    by (subst compute_cols.simps) (simp add: Let_def)
next
  case (Suc d)
  let ?x = "gaussian (real row) (real (unat r)) sigma * gaussian (real col) (real (unat r)) sigma"
  let ?k = "k[row := (k ! row)[col := ?x]]"
  from Suc.hyps(2) have below: "int col < INT_MAX" by linarith
  with Suc.prems have inside: "col < length (k ! row)" by linarith
  have d: "d = nat INT_MAX - (col + 1)" using Suc.hyps(2) by simp
  have row': "?k ! row = (k ! row)[col := ?x]" using Suc.prems by simp
  have "compute_cols r sigma row (col + 1) (?k, acc + ?x) = Inl Signed_overflow"
    using Suc.prems below by (intro Suc.hyps(1) [OF d]) (simp_all add: row')
  then show ?case
    using inside below by (subst compute_cols.simps) (simp add: Let_def)
qed

lemma kernel_counter_overflow:
  assumes "2 ^ 30 \<le> unat kernelRadius" and "unat kernelRadius < 2 ^ 31"
  shows "produce2dGaussianKernel kernelRadius = Inl Signed_overflow"
proof -
  define n where "n = unat (2 * kernelRadius + 1)"
  have n: "n = 2 * unat kernelRadius + 1"
    using assms(2) by (simp add: n_def unat_word_ariths)
  from assms(1) have "1073741824 \<le> unat kernelRadius" by simp
  then have big: "INT_MAX < int n"
    unfolding n INT_MAX_def by linarith
  have pos: "0 < n" using n by simp
  have nz: "kernelRadius \<noteq> 0" using assms(1) by auto
  have len: "length (replicate n (replicate n (0 :: real)) ! 0) = n"
    using pos by simp
  have "compute_cols kernelRadius (real (unat kernelRadius) / 2) 0 0
          (replicate n (replicate n 0), 0) = Inl Signed_overflow"
  proof (rule compute_cols_overflow)
    show "0 < length (replicate n (replicate n (0 :: real)))" using pos by simp
    show "INT_MAX < int (length (replicate n (replicate n (0 :: real)) ! 0))"
      using big by (simp only: len)
    show "int 0 \<le> INT_MAX" by (simp add: INT_MAX_def)
  qed
  then have "compute_rows kernelRadius (real (unat kernelRadius) / 2) 0
          (replicate n (replicate n 0), 0) = Inl Signed_overflow"
    using pos by (subst compute_rows.simps) simp
  then show ?thesis
    using nz by (simp only: produce2dGaussianKernel_def Let_def if_False sum.case n_def)
qed

text \<open>
  Claim C3. For the radius \<open>0\<close>, \<open>produce2dGaussianKernel\<close> returns exactly the matrix with the
  one row \<open>[1]\<close>: the early return, before \<open>sigma\<close> is computed and before any division.
\<close>

theorem kernel_radius_zero: "produce2dGaussianKernel 0 = Inr [[1]]"
  by (simp add: produce2dGaussianKernel_def)

text \<open>
  The shape and the sign of the matrix. The side \<open>2 * kernelRadius + 1\<close> is computed in
  \<open>unsigned int\<close>, and the loops count it with \<open>int\<close> counters (\<open>kernel_counter_overflow\<close>
  above). For a radius \<open>1 \<le> r < 2^30\<close> the function returns a matrix of \<open>2r+1\<close> rows of
  \<open>2r+1\<close> entries, none of them negative. What the entries of the program add up to depends
  on how each product, each quotient and the running sum are rounded to \<open>float\<close> and
  \<open>double\<close>; the real numbers used here have no rounding, so that nothing is stated about
  the distance of that sum from \<open>1\<close>.
\<close>

lemma kernel_shape_and_sign:
  assumes "kernelRadius \<noteq> 0" and "unat kernelRadius < 2 ^ 30"
  shows "\<exists>kernel. produce2dGaussianKernel kernelRadius = Inr kernel \<and>
           length kernel = 2 * unat kernelRadius + 1 \<and>
           (\<forall>row \<in> set kernel. length row = 2 * unat kernelRadius + 1 \<and> (\<forall>v \<in> set row. 0 \<le> v))"
proof -
  let ?n = "2 * unat kernelRadius + 1"
  let ?sigma = "real (unat kernelRadius) / 2"
  let ?w = "\<lambda>row col. gaussian (real row) (real (unat kernelRadius)) ?sigma
                    * gaussian (real col) (real (unat kernelRadius)) ?sigma"
  let ?S = "\<Sum>i = 0..<?n. \<Sum>c = 0..<?n. ?w i c"
  let ?kernel = "map (\<lambda>row. map (\<lambda>col. ?w row col / ?S) [0..<?n]) [0..<?n]"
  have S: "0 < ?S" by (rule weight_sum_pos) simp
  have run: "produce2dGaussianKernel kernelRadius = Inr ?kernel"
    by (rule kernel_closed_form [OF assms refl])
  have rows: "\<forall>row \<in> set ?kernel. length row = ?n \<and> (\<forall>v \<in> set row. 0 \<le> v)"
    using S by (auto simp: gaussian_pos less_imp_le)
  show ?thesis
    using run rows by (intro exI [of _ ?kernel] conjI) simp_all
qed

text \<open>
  At the radius \<open>2^31\<close> the side wraps to \<open>1\<close>: the matrix returned is \<open>[[1]]\<close>, of side \<open>1\<close>
  and not \<open>2 * 2^31 + 1\<close>.
\<close>

lemma kernel_side_at_2_31:
  "(1 :: 32 word) \<le> 0x80000000 \<and>
   produce2dGaussianKernel 0x80000000 = Inr [[1]] \<and>
   length [[1 :: real]] \<noteq> 2 * unat (0x80000000 :: 32 word) + 1"
proof -
  have side: "unat (2 * 0x80000000 + 1 :: 32 word) = 1" by simp
  have "0 < gaussian 0 (real (unat (0x80000000 :: 32 word))) (real (unat (0x80000000 :: 32 word)) / 2)"
    by (rule gaussian_pos)
  then have "produce2dGaussianKernel 0x80000000 = Inr [[1]]"
    using produce2dGaussianKernel_eq [of "0x80000000"]
    by (simp add: side INT_MAX_def)
  then show ?thesis by simp
qed

text \<open>
  Claim C2, as amended to the radii \<open>1 \<le> r < 2^30\<close>. The matrix is built with
  \<open>sigma = r / 2\<close> and has \<open>2r+1\<close> rows of \<open>2r+1\<close> cells; the cell \<open>(row, col)\<close> is
  \<open>gaussian row r sigma * gaussian col r sigma\<close> divided by the sum of these products over
  all cells, where \<open>gaussian x mu sigma = exp (-0.5 * ((x - mu) / sigma)^2)\<close>.
\<close>

theorem kernel_cells:
  assumes "kernelRadius \<noteq> 0" and "unat kernelRadius < 2 ^ 30"
  shows "\<exists>kernel. produce2dGaussianKernel kernelRadius = Inr kernel \<and>
           length kernel = 2 * unat kernelRadius + 1 \<and>
           (\<forall>row<2 * unat kernelRadius + 1.
              length (kernel ! row) = 2 * unat kernelRadius + 1 \<and>
              (\<forall>col<2 * unat kernelRadius + 1.
                 kernel ! row ! col =
                   gaussian (real row) (real (unat kernelRadius)) (real (unat kernelRadius) / 2)
                     * gaussian (real col) (real (unat kernelRadius)) (real (unat kernelRadius) / 2)
                     / (\<Sum>i = 0..<2 * unat kernelRadius + 1. \<Sum>c = 0..<2 * unat kernelRadius + 1.
                          gaussian (real i) (real (unat kernelRadius)) (real (unat kernelRadius) / 2)
                            * gaussian (real c) (real (unat kernelRadius)) (real (unat kernelRadius) / 2)))) \<and>
           (\<forall>x mu sigma. gaussian x mu sigma = exp (- 0.5 * ((x - mu) / sigma)\<^sup>2))"
proof -
  define n where "n = 2 * unat kernelRadius + 1"
  from kernel_closed_form [OF assms n_def] obtain k
    where run: "produce2dGaussianKernel kernelRadius = Inr k" by blast
  note facts = kernel_nth [OF assms n_def run]
  have "length k = n \<and>
        (\<forall>row<n. length (k ! row) = n \<and>
           (\<forall>col<n. k ! row ! col =
              gaussian (real row) (real (unat kernelRadius)) (real (unat kernelRadius) / 2)
                * gaussian (real col) (real (unat kernelRadius)) (real (unat kernelRadius) / 2)
                / (\<Sum>i = 0..<n. \<Sum>c = 0..<n.
                     gaussian (real i) (real (unat kernelRadius)) (real (unat kernelRadius) / 2)
                       * gaussian (real c) (real (unat kernelRadius)) (real (unat kernelRadius) / 2))))"
    using facts by blast
  then show ?thesis
    unfolding n_def using run gaussian_square by blast
qed

theorem kernel_cells_witness:
  "(1 :: 32 word) \<noteq> 0 \<and> unat (1 :: 32 word) < 2 ^ 30 \<and>
   (\<exists>kernel. produce2dGaussianKernel 1 = Inr kernel \<and>
           length kernel = 2 * unat (1 :: 32 word) + 1 \<and>
           (\<forall>row<2 * unat (1 :: 32 word) + 1.
              length (kernel ! row) = 2 * unat (1 :: 32 word) + 1 \<and>
              (\<forall>col<2 * unat (1 :: 32 word) + 1.
                 kernel ! row ! col =
                   gaussian (real row) (real (unat (1 :: 32 word))) (real (unat (1 :: 32 word)) / 2)
                     * gaussian (real col) (real (unat (1 :: 32 word))) (real (unat (1 :: 32 word)) / 2)
                     / (\<Sum>i = 0..<2 * unat (1 :: 32 word) + 1. \<Sum>c = 0..<2 * unat (1 :: 32 word) + 1.
                          gaussian (real i) (real (unat (1 :: 32 word))) (real (unat (1 :: 32 word)) / 2)
                            * gaussian (real c) (real (unat (1 :: 32 word))) (real (unat (1 :: 32 word)) / 2)))) \<and>
           (\<forall>x mu sigma. gaussian x mu sigma = exp (- 0.5 * ((x - mu) / sigma)\<^sup>2)))"
proof -
  have nonzero: "(1 :: 32 word) \<noteq> 0" and small: "unat (1 :: 32 word) < 2 ^ 30" by simp_all
  from kernel_cells [OF nonzero small] nonzero small show ?thesis by blast
qed

text \<open>
  The claim C2 as stated fails at the radius \<open>2^31 + 1\<close>: the matrix returned has three
  rows, so it is not the \<open>(2r+1)\<close>-sided matrix the claim describes cell by cell.
\<close>

theorem kernel_cells_side_wraps:
  "(1 :: 32 word) \<le> 0x80000001 \<and>
   (\<exists>kernel. produce2dGaussianKernel 0x80000001 = Inr kernel \<and> length kernel = 3 \<and>
      length kernel \<noteq> 2 * unat (0x80000001 :: 32 word) + 1)"
proof -
  have side: "unat (2 * 0x80000001 + 1 :: 32 word) = 3" by simp
  have "\<exists>kernel. produce2dGaussianKernel 0x80000001 = Inr kernel \<and> length kernel = 3"
    using produce2dGaussianKernel_eq [of "0x80000001"]
    by (simp only: side length_map length_upt) (simp add: INT_MAX_def)
  then show ?thesis by auto
qed

text \<open>
  Claim C8, as amended to the radii \<open>1 \<le> r < 2^30\<close>. The entry at \<open>(r, r)\<close> is at least
  every entry of the matrix, and an entry does not grow when \<open>|row - r|\<close> and \<open>|col - r|\<close>
  do not shrink.
\<close>

theorem kernel_peak:
  assumes "kernelRadius \<noteq> 0" and "unat kernelRadius < 2 ^ 30"
  shows "\<exists>kernel. produce2dGaussianKernel kernelRadius = Inr kernel \<and>
           length kernel = 2 * unat kernelRadius + 1 \<and>
           (\<forall>row<2 * unat kernelRadius + 1. length (kernel ! row) = 2 * unat kernelRadius + 1) \<and>
           (\<forall>row<2 * unat kernelRadius + 1. \<forall>col<2 * unat kernelRadius + 1.
              kernel ! row ! col \<le> kernel ! unat kernelRadius ! unat kernelRadius) \<and>
           (\<forall>row<2 * unat kernelRadius + 1. \<forall>col<2 * unat kernelRadius + 1.
            \<forall>row'<2 * unat kernelRadius + 1. \<forall>col'<2 * unat kernelRadius + 1.
              \<bar>int row - int (unat kernelRadius)\<bar> \<le> \<bar>int row' - int (unat kernelRadius)\<bar> \<and>
              \<bar>int col - int (unat kernelRadius)\<bar> \<le> \<bar>int col' - int (unat kernelRadius)\<bar>
              \<longrightarrow> kernel ! row' ! col' \<le> kernel ! row ! col)"
proof -
  define n where "n = 2 * unat kernelRadius + 1"
  define mu where "mu = real (unat kernelRadius)"
  define S where "S = (\<Sum>i = 0..<n. \<Sum>c = 0..<n. gaussian (real i) mu (mu / 2) * gaussian (real c) mu (mu / 2))"
  from kernel_closed_form [OF assms n_def] obtain k
    where run: "produce2dGaussianKernel kernelRadius = Inr k" by blast
  note facts = kernel_nth [OF assms n_def run, folded mu_def, folded S_def]
  have S: "0 < S" unfolding S_def by (rule weight_sum_pos) (simp add: n_def)
  have mono: "k ! row' ! col' \<le> k ! row ! col"
    if "row < n" "col < n" "row' < n" "col' < n"
      and "\<bar>int row - int (unat kernelRadius)\<bar> \<le> \<bar>int row' - int (unat kernelRadius)\<bar>"
      and "\<bar>int col - int (unat kernelRadius)\<bar> \<le> \<bar>int col' - int (unat kernelRadius)\<bar>"
    for row col row' col'
  proof -
    have "\<bar>real row - mu\<bar> \<le> \<bar>real row' - mu\<bar>" and "\<bar>real col - mu\<bar> \<le> \<bar>real col' - mu\<bar>"
      using that(5,6) unfolding mu_def by linarith+
    then have "gaussian (real row') mu (mu / 2) \<le> gaussian (real row) mu (mu / 2)"
      and "gaussian (real col') mu (mu / 2) \<le> gaussian (real col) mu (mu / 2)"
      by (simp_all add: gaussian_mono)
    then have "gaussian (real row') mu (mu / 2) * gaussian (real col') mu (mu / 2)
                 \<le> gaussian (real row) mu (mu / 2) * gaussian (real col) mu (mu / 2)"
      by (intro mult_mono) (simp_all add: gaussian_pos less_imp_le)
    then show ?thesis
      using S that(1-4) by (simp add: facts(3) divide_right_mono)
  qed
  have centre: "unat kernelRadius < n" by (simp add: n_def)
  have peak: "k ! row ! col \<le> k ! unat kernelRadius ! unat kernelRadius" if "row < n" "col < n" for row col
    using mono [OF centre centre that] by simp
  have "length k = n \<and> (\<forall>row<n. length (k ! row) = n) \<and>
        (\<forall>row<n. \<forall>col<n. k ! row ! col \<le> k ! unat kernelRadius ! unat kernelRadius) \<and>
        (\<forall>row<n. \<forall>col<n. \<forall>row'<n. \<forall>col'<n.
              \<bar>int row - int (unat kernelRadius)\<bar> \<le> \<bar>int row' - int (unat kernelRadius)\<bar> \<and>
              \<bar>int col - int (unat kernelRadius)\<bar> \<le> \<bar>int col' - int (unat kernelRadius)\<bar>
              \<longrightarrow> k ! row' ! col' \<le> k ! row ! col)"
    using facts(1,2) peak mono by blast
  then show ?thesis
    unfolding n_def using run by blast
qed

theorem kernel_peak_witness:
  "(1 :: 32 word) \<noteq> 0 \<and> unat (1 :: 32 word) < 2 ^ 30 \<and>
   (\<exists>kernel. produce2dGaussianKernel 1 = Inr kernel \<and>
           length kernel = 2 * unat (1 :: 32 word) + 1 \<and>
           (\<forall>row<2 * unat (1 :: 32 word) + 1. length (kernel ! row) = 2 * unat (1 :: 32 word) + 1) \<and>
           (\<forall>row<2 * unat (1 :: 32 word) + 1. \<forall>col<2 * unat (1 :: 32 word) + 1.
              kernel ! row ! col \<le> kernel ! unat (1 :: 32 word) ! unat (1 :: 32 word)) \<and>
           (\<forall>row<2 * unat (1 :: 32 word) + 1. \<forall>col<2 * unat (1 :: 32 word) + 1.
            \<forall>row'<2 * unat (1 :: 32 word) + 1. \<forall>col'<2 * unat (1 :: 32 word) + 1.
              \<bar>int row - int (unat (1 :: 32 word))\<bar> \<le> \<bar>int row' - int (unat (1 :: 32 word))\<bar> \<and>
              \<bar>int col - int (unat (1 :: 32 word))\<bar> \<le> \<bar>int col' - int (unat (1 :: 32 word))\<bar>
              \<longrightarrow> kernel ! row' ! col' \<le> kernel ! row ! col))"
proof -
  have nonzero: "(1 :: 32 word) \<noteq> 0" and small: "unat (1 :: 32 word) < 2 ^ 30" by simp_all
  from kernel_peak [OF nonzero small] nonzero small show ?thesis by blast
qed

text \<open>
  The claim C8 as stated fails at the radius \<open>2^31 + 1000\<close>: the side wraps to \<open>2001\<close>,
  so the matrix returned has no entry at \<open>(r, r)\<close>, and its middle entry \<open>(1000, 1000)\<close> is
  strictly below its last entry \<open>(2000, 2000)\<close>: the bell is centred far outside the
  matrix.
\<close>

theorem kernel_peak_side_wraps:
  "(1 :: 32 word) \<le> 0x800003E8 \<and>
   (\<exists>kernel. produce2dGaussianKernel 0x800003E8 = Inr kernel \<and>
      \<not> unat (0x800003E8 :: 32 word) < length kernel \<and>
      length kernel = 2001 \<and> length (kernel ! 1000) = 2001 \<and> length (kernel ! 2000) = 2001 \<and>
      kernel ! 1000 ! 1000 < kernel ! 2000 ! 2000)"
proof -
  define mu :: real where "mu = 2147484648"
  define w where "w = (\<lambda>row col. gaussian (real row) mu (mu / 2) * gaussian (real col) mu (mu / 2))"
  define n :: nat where "n = 2001"
  define S where "S = (\<Sum>i = 0..<n. \<Sum>c = 0..<n. w i c)"
  define k where "k = map (\<lambda>row. map (\<lambda>col. w row col / S) [0..<n]) [0..<n]"
  have side: "unat (2 * 0x800003E8 + 1 :: 32 word) = n" and r: "real (unat (0x800003E8 :: 32 word)) = mu"
    by (simp_all add: mu_def n_def)
  have "int n \<le> INT_MAX" by (simp add: n_def INT_MAX_def)
  then have "int (unat (2 * 0x800003E8 + 1 :: 32 word)) \<le> INT_MAX" by (simp only: side)
  from produce2dGaussianKernel_eq [OF _ this]
  have run: "produce2dGaussianKernel 0x800003E8 = Inr k"
    unfolding side r k_def S_def w_def by simp
  have lens: "length k = 2001" "length (k ! 1000) = 2001" "length (k ! 2000) = 2001"
    by (simp_all add: k_def n_def)
  have "k ! 1000 ! 1000 < k ! 2000 ! 2000"
  proof -
    have S: "0 < S"
      unfolding S_def w_def by (rule weight_sum_pos) (simp add: n_def)
    have g: "gaussian 1000 mu (mu / 2) < gaussian 2000 mu (mu / 2)"
      by (rule gaussian_strict_mono) (simp_all add: mu_def)
    have "w 1000 1000 < w 2000 2000"
      unfolding w_def using g gaussian_pos [of 1000 mu "mu / 2"]
      by (simp add: mult_strict_mono less_imp_le)
    moreover have "k ! 1000 ! 1000 = w 1000 1000 / S" "k ! 2000 ! 2000 = w 2000 2000 / S"
      by (simp_all add: k_def n_def)
    ultimately show ?thesis
      using S by (simp add: divide_strict_right_mono)
  qed
  with run lens show ?thesis by simp
qed

subsection \<open>Evaluating a run\<close>

lemmas stream_defs = open_file_def isspace_def isdigit_def decimal_def INT_MIN_def INT_MAX_def
  sign_of_def after_sign_def digits_of_def number_of_def read_word_def getline_def read_int_def
  read_bytes_def

lemmas main_defs = main_def main_platforms_def main_devices_def main_context_def main_filter_def
  main_program_def main_image_def main_pipeline_def main_finish_def checked_def CheckError_def
  followed_by_def CL_SUCCESS_def LoadKernel_def size_t_of_int_def atoi_def

lemmas stage_defs = main_platforms_def main_devices_def main_context_def
  main_program_def main_image_def main_pipeline_def main_finish_def checked_def CheckError_def
  followed_by_def CL_SUCCESS_def LoadKernel_def size_t_of_int_def

lemmas codec_defs = LoadImage_def skip_comments.simps
  RGBtoRGBA_def RGBtoRGBA_loop.simps RGBAtoRGB_def RGBAtoRGB_loop.simps
  SaveImage_def show_int_def show_nat.simps digit_char_def Let_def

lemmas run_defs = main_defs stream_defs codec_defs produce2dGaussianKernel_def


subsection \<open>Runs: how properties of the rest of a run carry over\<close>

lemma followed_by_Some:
  "followed_by evs rest = Some (tr, s) \<longleftrightarrow> (\<exists>tr'. rest = Some (tr', s) \<and> tr = evs @ tr')"
  by (auto simp: followed_by_def split: option.splits)

lemma checked_Some:
  "checked w c rest = Some (tr, s) \<longleftrightarrow>
     (if status w c \<noteq> CL_SUCCESS then tr = [Call c, error_line (status w c)] \<and> s = Exit 1
      else \<exists>tr'. rest = Some (tr', s) \<and> tr = Call c # tr')"
  by (auto simp: checked_def CheckError_def followed_by_Some error_line_def)

lemma LoadImage_stop: "LoadImage file = Some (Inl s) \<Longrightarrow> s \<noteq> Exit 0"
  by (auto simp: LoadImage_def Let_def split: prod.splits option.splits if_splits)


subsection \<open>The order of the releases\<close>

lemma releases_None: "releases_last None"
  by (simp add: releases_last_def)

lemma releases_stop:
  "s \<noteq> Exit 0 \<Longrightarrow> (\<forall>x. Call (Release x) \<notin> set evs) \<Longrightarrow> releases_last (Some (evs, s))"
  by (simp add: releases_last_def)

lemma releases_followed_by:
  assumes "releases_last rest" and "\<forall>x. Call (Release x) \<notin> set evs"
  shows "releases_last (followed_by evs rest)"
  unfolding releases_last_def
proof (intro allI impI)
  fix tr s
  assume "followed_by evs rest = Some (tr, s)"
  then obtain tr' where rest: "rest = Some (tr', s)" and tr: "tr = evs @ tr'"
    by (auto simp: followed_by_Some)
  show "if s = Exit 0
        then \<exists>pre. tr = pre @ release_events \<and> (\<forall>x. Call (Release x) \<notin> set pre)
        else \<forall>x. Call (Release x) \<notin> set tr"
  proof (cases "s = Exit 0")
    case True
    with assms(1) rest obtain pre where "tr' = pre @ release_events" "\<forall>x. Call (Release x) \<notin> set pre"
      by (auto simp: releases_last_def)
    with assms(2) tr have "tr = (evs @ pre) @ release_events \<and> (\<forall>x. Call (Release x) \<notin> set (evs @ pre))"
      by simp
    with True show ?thesis by metis
  next
    case False
    with assms rest tr show ?thesis by (auto simp: releases_last_def)
  qed
qed

lemma releases_checked:
  assumes "releases_last rest" and "\<forall>x. c \<noteq> Release x"
  shows "releases_last (checked w c rest)"
proof (cases "status w c \<noteq> CL_SUCCESS")
  case True
  then have "checked w c rest = Some ([Call c, error_line (status w c)], Exit 1)"
    by (simp add: checked_def CheckError_def followed_by_def error_line_def)
  moreover have "Call (Release x) \<notin> set [Call c, error_line (status w c)]" for x
    using assms(2) by (auto simp: error_line_def)
  ultimately show ?thesis
    by (simp only: releases_last_def) auto
next
  case False
  then have "checked w c rest = followed_by [Call c] rest"
    by (simp add: checked_def CheckError_def)
  moreover have "\<forall>x. Call (Release x) \<notin> set [Call c]"
    using assms(2) by auto
  ultimately show ?thesis
    using releases_followed_by [OF assms(1)] by simp
qed

lemma releases_main_finish: "releases_last (main_finish w picture)"
  unfolding main_finish_def Let_def
  by (intro releases_followed_by)
     (auto simp: releases_last_def release_events_def split: sum.splits)

lemma releases_main_pipeline: "releases_last (main_pipeline w weights picture)"
  unfolding main_pipeline_def
  by (intro releases_checked releases_followed_by releases_main_finish) simp_all

lemma releases_main_image: "releases_last (main_image w weights)"
  unfolding main_image_def
  by (auto simp: releases_None releases_stop releases_main_pipeline dest: LoadImage_stop
           split: option.splits sum.splits)

lemma releases_main_program: "releases_last (main_program w filterSize weights)"
  unfolding main_program_def
  by (intro releases_checked releases_main_image) simp_all

lemma releases_main_filter: "releases_last (main_filter w filterSize)"
  unfolding main_filter_def
  by (auto simp: releases_stop releases_main_program split: sum.splits list.splits)

lemma releases_main_context: "releases_last (main_context w filterSize)"
  unfolding main_context_def
  by (intro releases_checked releases_followed_by releases_main_filter) simp_all

lemma releases_main_devices: "releases_last (main_devices w filterSize)"
  unfolding main_devices_def
  by (intro releases_followed_by) (auto simp: releases_stop releases_main_context intro!: releases_followed_by)

lemma releases_main_platforms: "releases_last (main_platforms w filterSize)"
  unfolding main_platforms_def
  by (intro releases_followed_by) (auto simp: releases_stop releases_main_devices intro!: releases_followed_by)

lemma releases_main: "releases_last (main w)"
  unfolding main_def
  by (auto simp: releases_stop releases_main_platforms split: sum.splits)


text \<open>
  Claim C4, as amended. A run of \<open>main\<close> that ends with status \<open>0\<close> (every checked call
  succeeded and the image was read; the status of the readback plays no part) ends with the
  releases of the output image, the weights buffer, the input image, the command queue, the
  kernel and the program, in this order, then the release of the context, and releases
  nothing before. A run that ends in any other way, as it does when the dispatch fails and
  \<open>CheckError\<close> calls \<open>std::exit\<close>, releases nothing.
\<close>

theorem releases_in_order:
  assumes "main w = Some (tr, s)"
  shows "if s = Exit 0
         then \<exists>pre. tr = pre @ [Call (Release Output_image), Call (Release Weights_buffer),
                                  Call (Release Input_image), Call (Release Command_queue),
                                  Call (Release Compiled_kernel), Call (Release Compiled_program),
                                  Call (Release Context)]
                    \<and> (\<forall>x. Call (Release x) \<notin> set pre)
         else \<forall>x. Call (Release x) \<notin> set tr"
  using releases_main [of w] assms
  unfolding releases_last_def release_events_def by blast

theorem releases_in_order_witness:
  "\<exists>tr. main readback_fails = Some (tr, Exit 0) \<and>
        status readback_fails (EnqueueReadImage 1 1) \<noteq> CL_SUCCESS \<and>
        (\<exists>pre. tr = pre @ [Call (Release Output_image), Call (Release Weights_buffer),
                                  Call (Release Input_image), Call (Release Command_queue),
                                  Call (Release Compiled_kernel), Call (Release Compiled_program),
                                  Call (Release Context)]
                    \<and> (\<forall>x. Call (Release x) \<notin> set pre))"
proof -
  obtain tr where run: "main readback_fails = Some (tr, Exit 0)"
    by (simp add: readback_fails_def ok_world_def run_defs)
  have "status readback_fails (EnqueueReadImage 1 1) \<noteq> CL_SUCCESS"
    by (simp add: readback_fails_def CL_SUCCESS_def)
  with run releases_in_order [OF run] show ?thesis by simp
qed

text \<open>
  The claim C4 as stated fails on a run whose dispatch fails: the process exits with status
  \<open>1\<close> right after \<open>clEnqueueNDRangeKernel\<close> and none of the seven releases takes place.
\<close>

theorem dispatch_failure_releases_nothing:
  "status dispatch_fails (EnqueueNDRangeKernel 1 1) \<noteq> CL_SUCCESS \<and>
   (\<exists>tr. main dispatch_fails = Some (tr, Exit 1) \<and>
      Call (EnqueueNDRangeKernel 1 1) \<in> set tr \<and>
      Call (Release Output_image) \<notin> set tr \<and> Call (Release Weights_buffer) \<notin> set tr \<and>
      Call (Release Input_image) \<notin> set tr \<and> Call (Release Command_queue) \<notin> set tr \<and>
      Call (Release Compiled_kernel) \<notin> set tr \<and> Call (Release Compiled_program) \<notin> set tr \<and>
      Call (Release Context) \<notin> set tr)"
  by (simp add: dispatch_fails_def ok_world_def run_defs)


subsection \<open>Failures of the checked calls\<close>

lemma reports_None: "reports_failures w None"
  by (simp add: reports_failures_def)

lemma reports_quiet:
  "(\<forall>c. Call c \<in> set evs \<longrightarrow> \<not> checked_site c) \<Longrightarrow> reports_failures w (Some (evs, s))"
  by (auto simp: reports_failures_def)

lemma reports_followed_by:
  assumes "reports_failures w rest" and "\<forall>c. Call c \<in> set evs \<longrightarrow> \<not> checked_site c"
  shows "reports_failures w (followed_by evs rest)"
  unfolding reports_failures_def
proof (intro allI impI)
  fix tr s c
  assume a: "followed_by evs rest = Some (tr, s) \<and> Call c \<in> set tr \<and> checked_site c
               \<and> status w c \<noteq> CL_SUCCESS"
  then obtain tr' where rest: "rest = Some (tr', s)" and tr: "tr = evs @ tr'"
    by (auto simp: followed_by_Some)
  with a assms(2) have "Call c \<in> set tr'" by auto
  with assms(1) rest a obtain pre where "s = Exit 1" and "tr' = pre @ [Call c, error_line (status w c)]"
    unfolding reports_failures_def by blast
  with tr have "s = Exit 1 \<and> tr = (evs @ pre) @ [Call c, error_line (status w c)]" by simp
  then show "s = Exit 1 \<and> (\<exists>pre. tr = pre @ [Call c, error_line (status w c)])" by blast
qed

lemma reports_checked:
  assumes "reports_failures w rest"
  shows "reports_failures w (checked w c rest)"
  unfolding reports_failures_def
proof (intro allI impI)
  fix tr s c'
  assume a: "checked w c rest = Some (tr, s) \<and> Call c' \<in> set tr \<and> checked_site c'
               \<and> status w c' \<noteq> CL_SUCCESS"
  show "s = Exit 1 \<and> (\<exists>pre. tr = pre @ [Call c', error_line (status w c')])"
  proof (cases "status w c \<noteq> CL_SUCCESS")
    case True
    with a have "tr = [Call c, error_line (status w c)]" and s: "s = Exit 1"
      by (simp_all add: checked_Some)
    moreover from this a have "c' = c" by (auto simp: error_line_def)
    ultimately have "tr = [] @ [Call c', error_line (status w c')]" by simp
    with s show ?thesis by blast
  next
    case False
    with a obtain tr' where rest: "rest = Some (tr', s)" and tr: "tr = Call c # tr'"
      by (auto simp: checked_Some)
    from False a have "c' \<noteq> c" by auto
    with a tr have "Call c' \<in> set tr'" by auto
    with assms rest a obtain pre where "s = Exit 1" and "tr' = pre @ [Call c', error_line (status w c')]"
      unfolding reports_failures_def by blast
    with tr have "s = Exit 1 \<and> tr = (Call c # pre) @ [Call c', error_line (status w c')]" by simp
    then show ?thesis by blast
  qed
qed

lemma reports_main_finish: "reports_failures w (main_finish w picture)"
  unfolding main_finish_def Let_def
  by (intro reports_followed_by) (auto intro!: reports_quiet split: sum.splits)

lemma reports_main_pipeline: "reports_failures w (main_pipeline w weights picture)"
  unfolding main_pipeline_def
  by (intro reports_checked reports_followed_by reports_main_finish) auto

lemma reports_main_image: "reports_failures w (main_image w weights)"
  unfolding main_image_def
  by (auto simp: reports_None reports_main_pipeline intro!: reports_quiet
           split: option.splits sum.splits)

lemma reports_main_program: "reports_failures w (main_program w filterSize weights)"
  unfolding main_program_def
  by (intro reports_checked reports_main_image)

lemma reports_main_filter: "reports_failures w (main_filter w filterSize)"
  unfolding main_filter_def
  by (auto simp: reports_main_program intro!: reports_quiet split: sum.splits list.splits)

lemma reports_main_context: "reports_failures w (main_context w filterSize)"
  unfolding main_context_def
  by (intro reports_checked reports_followed_by reports_main_filter) auto

lemma reports_main_devices: "reports_failures w (main_devices w filterSize)"
  unfolding main_devices_def
  by (intro reports_followed_by) (auto simp: reports_main_context intro!: reports_followed_by reports_quiet)

lemma reports_main_platforms: "reports_failures w (main_platforms w filterSize)"
  unfolding main_platforms_def
  by (intro reports_followed_by) (auto simp: reports_main_devices intro!: reports_followed_by reports_quiet)

lemma reports_main: "reports_failures w (main w)"
  unfolding main_def
  by (auto simp: reports_main_platforms intro!: reports_quiet split: sum.splits)

text \<open>
  Claim C5, as amended. For the call sites whose status is passed to \<open>CheckError\<close> (the
  creation of the context, the program, the kernel, the two images, the weights buffer and
  the queue, the build, and the dispatch): when the run makes such a call and its status is
  not \<open>CL_SUCCESS\<close>, the status is written to \<open>std::cerr\<close> in decimal and the process exits
  with status \<open>1\<close> at once, so that the call and the line are the last two events of the run.
\<close>

theorem checked_failure_is_fatal:
  assumes "main w = Some (tr, s)" and "Call c \<in> set tr" and "checked_site c"
    and "status w c \<noteq> CL_SUCCESS"
  shows "s = Exit 1 \<and>
         (\<exists>pre. tr = pre @ [Call c, Cerr (''OpenCL call failed with error '' @ show_int (status w c)
                                             @ [CHR 0x0A])])"
  using reports_main [of w] assms
  unfolding reports_failures_def error_line_def by blast

theorem checked_failure_is_fatal_witness:
  "\<exists>tr. main dispatch_fails = Some (tr, Exit 1) \<and>
        Call (EnqueueNDRangeKernel 1 1) \<in> set tr \<and>
        checked_site (EnqueueNDRangeKernel 1 1) \<and>
        status dispatch_fails (EnqueueNDRangeKernel 1 1) \<noteq> CL_SUCCESS \<and>
        (\<exists>pre. tr = pre @ [Call (EnqueueNDRangeKernel 1 1),
                            Cerr (''OpenCL call failed with error ''
                                  @ show_int (status dispatch_fails (EnqueueNDRangeKernel 1 1))
                                  @ [CHR 0x0A])])"
proof -
  obtain tr where run: "main dispatch_fails = Some (tr, Exit 1)"
    and called: "Call (EnqueueNDRangeKernel 1 1) \<in> set tr"
    by (simp add: dispatch_fails_def ok_world_def run_defs)
  have site: "checked_site (EnqueueNDRangeKernel 1 1)" by simp
  have failed: "status dispatch_fails (EnqueueNDRangeKernel 1 1) \<noteq> CL_SUCCESS"
    by (simp add: dispatch_fails_def CL_SUCCESS_def)
  from checked_failure_is_fatal [OF run called site failed] run called site failed
  show ?thesis by blast
qed

text \<open>
  The claim C5 as stated fails on a run whose readback fails: the status of
  \<open>clEnqueueReadImage\<close> is not looked at, nothing is written to \<open>std::cerr\<close>, the output file
  is written and the process ends with status \<open>0\<close> after the releases.
\<close>

theorem readback_failure_goes_unreported:
  "status readback_fails (EnqueueReadImage 1 1) \<noteq> CL_SUCCESS \<and>
   (\<exists>tr. main readback_fails = Some (tr, Exit 0) \<and>
      Call (EnqueueReadImage 1 1) \<in> set tr \<and>
      (\<forall>text. Cerr text \<notin> set tr) \<and>
      (\<exists>text. Write_file ''output.ppm'' text \<in> set tr) \<and>
      last tr = Call (Release Context))"
  by (simp add: readback_fails_def ok_world_def run_defs)


subsection \<open>The statuses that are never looked at\<close>

text \<open>
  A run depends on the statuses of the checked call sites only: two worlds that differ in
  the statuses of other call sites have the same run.
\<close>

lemma checked_status:
  "checked_site c \<Longrightarrow> \<forall>c. checked_site c \<longrightarrow> st c = status w c \<Longrightarrow>
     checked (w\<lparr>status := st\<rparr>) c rest = checked w c rest"
  by (simp add: checked_def)

lemma main_finish_status: "main_finish (w\<lparr>status := st\<rparr>) picture = main_finish w picture"
  by (simp add: main_finish_def)

lemma main_pipeline_status:
  assumes "\<forall>c. checked_site c \<longrightarrow> st c = status w c"
  shows "main_pipeline (w\<lparr>status := st\<rparr>) weights picture = main_pipeline w weights picture"
  by (simp add: main_pipeline_def checked_status [OF _ assms] main_finish_status)

lemma main_image_status:
  assumes "\<forall>c. checked_site c \<longrightarrow> st c = status w c"
  shows "main_image (w\<lparr>status := st\<rparr>) weights = main_image w weights"
  by (simp add: main_image_def main_pipeline_status [OF assms] cong: option.case_cong sum.case_cong)

lemma main_program_status:
  assumes "\<forall>c. checked_site c \<longrightarrow> st c = status w c"
  shows "main_program (w\<lparr>status := st\<rparr>) filterSize weights = main_program w filterSize weights"
  by (simp add: main_program_def checked_status [OF _ assms] main_image_status [OF assms])

lemma main_filter_status:
  assumes "\<forall>c. checked_site c \<longrightarrow> st c = status w c"
  shows "main_filter (w\<lparr>status := st\<rparr>) filterSize = main_filter w filterSize"
  by (simp add: main_filter_def main_program_status [OF assms] split: sum.splits list.splits)

lemma main_context_status:
  assumes "\<forall>c. checked_site c \<longrightarrow> st c = status w c"
  shows "main_context (w\<lparr>status := st\<rparr>) filterSize = main_context w filterSize"
  by (simp add: main_context_def checked_status [OF _ assms] main_filter_status [OF assms])

lemma main_devices_status:
  assumes "\<forall>c. checked_site c \<longrightarrow> st c = status w c"
  shows "main_devices (w\<lparr>status := st\<rparr>) filterSize = main_devices w filterSize"
  by (simp add: main_devices_def main_context_status [OF assms])

lemma main_platforms_status:
  assumes "\<forall>c. checked_site c \<longrightarrow> st c = status w c"
  shows "main_platforms (w\<lparr>status := st\<rparr>) filterSize = main_platforms w filterSize"
  by (simp add: main_platforms_def main_devices_status [OF assms])

lemma unchecked_status_is_ignored:
  assumes "\<forall>c. checked_site c \<longrightarrow> st c = status w c"
  shows "main (w\<lparr>status := st\<rparr>) = main w"
  by (simp add: main_def main_platforms_status [OF assms] cong: sum.case_cong)

subsection \<open>A file that is refused\<close>











lemma valid_radius_kernel:
  assumes "0 \<le> filterSize" and "filterSize < 2 ^ 30"
  shows "\<exists>first_row others. produce2dGaussianKernel (word_of_int filterSize) = Inr (first_row # others)
           \<and> length first_row = nat (2 * filterSize + 1)
           \<and> length (first_row # others) = nat (2 * filterSize + 1)"
proof (cases "filterSize = 0")
  case True
  then show ?thesis by (simp add: kernel_for_zero)
next
  case False
  let ?r = "word_of_int filterSize :: 32 word"
  have u: "unat ?r = nat filterSize"
    using assms by (simp add: unat_eq_nat_uint uint_word_of_int take_bit_int_eq_self)
  then have nz: "?r \<noteq> 0" using False assms by (metis nat_0_iff unat_0 not_le order_less_le)
  have small: "unat ?r < 2 ^ 30" using u assms by (simp add: nat_less_iff)
  define n where "n = 2 * unat ?r + 1"
  from kernel_closed_form [OF nz small n_def] obtain k
    where run: "produce2dGaussianKernel ?r = Inr k" by blast
  note facts = kernel_nth [OF nz small n_def run]
  from facts(1) have "k \<noteq> []" by (auto simp: n_def)
  then obtain first_row others where k: "k = first_row # others" by (cases k) auto
  have "length first_row = n" using facts(2) [of 0] by (simp add: k n_def)
  moreover have "n = nat (2 * filterSize + 1)" using u assms by (simp add: n_def nat_add_distrib nat_mult_distrib)
  ultimately show ?thesis using run facts(1) k by auto
qed











subsection \<open>An argument without digits\<close>

lemma usage_stop: "(\<forall>text. Printf text \<notin> set evs) \<Longrightarrow> prints_no_usage (Some (evs, s))"
  by (simp add: prints_no_usage_def)

lemma usage_None: "prints_no_usage None"
  by (simp add: prints_no_usage_def)

lemma usage_followed_by:
  "prints_no_usage rest \<Longrightarrow> (\<forall>text. Printf text \<notin> set evs) \<Longrightarrow> prints_no_usage (followed_by evs rest)"
  by (auto simp: prints_no_usage_def followed_by_Some)

lemma usage_checked: "prints_no_usage rest \<Longrightarrow> prints_no_usage (checked w c rest)"
  by (auto simp: prints_no_usage_def checked_Some error_line_def split: if_splits)

lemma usage_main_finish: "prints_no_usage (main_finish w picture)"
  unfolding main_finish_def Let_def
  by (intro usage_followed_by) (auto intro!: usage_stop split: sum.splits)

lemma usage_main_pipeline: "prints_no_usage (main_pipeline w weights picture)"
  unfolding main_pipeline_def
  by (intro usage_checked usage_followed_by usage_main_finish) auto

lemma usage_main_image: "prints_no_usage (main_image w weights)"
  unfolding main_image_def
  by (auto simp: usage_None usage_main_pipeline intro!: usage_stop split: option.splits sum.splits)

lemma usage_main_program: "prints_no_usage (main_program w filterSize weights)"
  unfolding main_program_def
  by (intro usage_checked usage_main_image)

lemma usage_main_filter: "prints_no_usage (main_filter w filterSize)"
  unfolding main_filter_def
  by (auto simp: usage_main_program intro!: usage_stop split: sum.splits list.splits)

lemma usage_main_context: "prints_no_usage (main_context w filterSize)"
  unfolding main_context_def
  by (intro usage_checked usage_followed_by usage_main_filter) auto

lemma usage_main_devices: "prints_no_usage (main_devices w filterSize)"
  unfolding main_devices_def
  by (intro usage_followed_by) (auto simp: usage_main_context intro!: usage_followed_by usage_stop)

lemma usage_main_platforms: "prints_no_usage (main_platforms w filterSize)"
  unfolding main_platforms_def
  by (intro usage_followed_by) (auto simp: usage_main_devices intro!: usage_followed_by usage_stop)

lemma main_finish_arguments:
  "main_finish (w\<lparr>arguments := args\<rparr>) picture = main_finish w picture"
  by (simp add: main_finish_def)

lemma main_pipeline_arguments:
  "main_pipeline (w\<lparr>arguments := args\<rparr>) weights picture = main_pipeline w weights picture"
  by (simp add: main_pipeline_def checked_def main_finish_arguments)

lemma main_image_arguments:
  "main_image (w\<lparr>arguments := args\<rparr>) weights = main_image w weights"
  by (simp add: main_image_def main_pipeline_arguments cong: option.case_cong sum.case_cong)

lemma main_program_arguments:
  "main_program (w\<lparr>arguments := args\<rparr>) filterSize weights = main_program w filterSize weights"
  by (simp add: main_program_def checked_def main_image_arguments)

lemma main_filter_arguments:
  "main_filter (w\<lparr>arguments := args\<rparr>) filterSize = main_filter w filterSize"
  by (simp add: main_filter_def main_program_arguments split: sum.splits list.splits)

lemma main_context_arguments:
  "main_context (w\<lparr>arguments := args\<rparr>) filterSize = main_context w filterSize"
  by (simp add: main_context_def checked_def main_filter_arguments)

lemma main_devices_arguments:
  "main_devices (w\<lparr>arguments := args\<rparr>) filterSize = main_devices w filterSize"
  by (simp add: main_devices_def main_context_arguments)

lemma main_platforms_arguments:
  "main_platforms (w\<lparr>arguments := args\<rparr>) filterSize = main_platforms w filterSize"
  by (simp add: main_platforms_def main_devices_arguments)

lemma atoi_no_digits: "digits_of a = [] \<Longrightarrow> atoi a = Inr 0"
  by (simp add: atoi_def number_of_def decimal_def INT_MIN_def INT_MAX_def)

lemma atoi_zero: "atoi ''0'' = Inr 0"
  by (simp add: atoi_def stream_defs)

text \<open>
  Claim C10, as amended. When the one argument has no digits where \<open>atoi\<close> looks for them
  (after white space and an optional sign), \<open>atoi\<close> yields \<open>0\<close>, the run is the run of the
  argument \<open>0\<close>, whose kernel is the matrix \<open>[[1]]\<close>, and no usage line is printed.
\<close>

theorem no_digits_is_radius_zero:
  assumes "arguments w = [a]" and "digits_of a = []"
  shows "atoi a = Inr 0 \<and>
         main w = main (w\<lparr>arguments := [''0'']\<rparr>) \<and>
         produce2dGaussianKernel (word_of_int 0) = Inr [[1]] \<and>
         (\<forall>tr s. main w = Some (tr, s) \<longrightarrow> (\<forall>text. Printf text \<notin> set tr))"
proof -
  have zero: "atoi a = Inr 0" using assms(2) by (rule atoi_no_digits)
  have run: "main w = main_platforms w 0"
    using assms(1) zero by (simp add: main_def)
  have "main (w\<lparr>arguments := [''0'']\<rparr>) = main_platforms w 0"
    by (simp add: main_def atoi_zero main_platforms_arguments)
  moreover have "\<forall>tr s. main w = Some (tr, s) \<longrightarrow> (\<forall>text. Printf text \<notin> set tr)"
    using usage_main_platforms [of w 0] unfolding run prints_no_usage_def by blast
  ultimately show ?thesis
    using zero run by (simp add: kernel_for_zero)
qed

theorem no_digits_is_radius_zero_witness:
  "arguments (ok_world\<lparr>arguments := [''abc'']\<rparr>) = [''abc''] \<and> digits_of ''abc'' = [] \<and>
   atoi ''abc'' = Inr 0 \<and>
   main (ok_world\<lparr>arguments := [''abc'']\<rparr>) = main (ok_world\<lparr>arguments := [''0'']\<rparr>) \<and>
   produce2dGaussianKernel (word_of_int 0) = Inr [[1]] \<and>
   (\<exists>tr. main (ok_world\<lparr>arguments := [''abc'']\<rparr>) = Some (tr, Exit 0) \<and>
         (\<forall>text. Printf text \<notin> set tr))"
proof -
  let ?w = "ok_world\<lparr>arguments := [''abc'']\<rparr>"
  have args: "arguments ?w = [''abc'']" by simp
  have none: "digits_of ''abc'' = []" by (simp add: stream_defs)
  note facts = no_digits_is_radius_zero [OF args none]
  have "main ok_world = main_platforms ok_world 0"
    by (simp add: main_def ok_world_def atoi_zero)
  with facts have "main ?w = main ok_world"
    by (simp add: main_def main_platforms_arguments)
  then obtain tr where run: "main ?w = Some (tr, Exit 0)"
    by (simp add: ok_world_def run_defs)
  from facts run have "\<forall>text. Printf text \<notin> set tr" by blast
  with run have quiet: "\<exists>tr. main ?w = Some (tr, Exit 0) \<and> (\<forall>text. Printf text \<notin> set tr)"
    by blast
  from facts have zero: "atoi ''abc'' = Inr 0"
    and same: "main ?w = main (?w\<lparr>arguments := [''0'']\<rparr>)"
    and identity: "produce2dGaussianKernel (word_of_int 0) = Inr [[1]]"
    by blast+
  from same have "main ?w = main (ok_world\<lparr>arguments := [''0'']\<rparr>)" by simp
  with args none zero identity quiet show ?thesis by blast
qed

text \<open>
  The claim C10 as stated fails for an argument that is not a number but starts with digits:
  for \<open>7x\<close>, \<open>atoi\<close> yields \<open>7\<close> and the run is the run of the radius \<open>7\<close>, not of \<open>0\<close>.
\<close>

theorem digits_then_letters_is_not_radius_zero:
  "arguments (ok_world\<lparr>arguments := [''7x'']\<rparr>) = [''7x''] \<and> \<not> isdigit CHR ''x'' \<and>
   atoi ''7x'' = Inr 7 \<and>
   main (ok_world\<lparr>arguments := [''7x'']\<rparr>) = main (ok_world\<lparr>arguments := [''7'']\<rparr>) \<and>
   main (ok_world\<lparr>arguments := [''7x'']\<rparr>) \<noteq> main (ok_world\<lparr>arguments := [''0'']\<rparr>)"
proof -
  have seven: "atoi ''7x'' = Inr 7" "atoi ''7'' = Inr 7" "\<not> isdigit CHR ''x''"
    by (simp_all add: atoi_def stream_defs)
  from valid_radius_kernel [of 7] obtain first_row others
    where k: "produce2dGaussianKernel (word_of_int 7) = Inr (first_row # others)"
      and rows: "length first_row = 15" and cols: "length others = 14"
    by auto
  define weights where
    "weights = map (\<lambda>i. map (\<lambda>j. (first_row # others) ! i ! j) [0..<length first_row])
                 [0..<length (first_row # others)]"
  have filter7: "main_filter w 7 = main_program w 7 weights" for w
    unfolding main_filter_def weights_def
    by (simp only: k sum.case list.case) (simp add: rows cols INT_MIN_def INT_MAX_def)
  have "\<exists>tr. main_platforms ok_world 7 = Some (tr, Exit 0) \<and> Call (BuildProgram ''-D RADIUS=7'') \<in> set tr"
    by (simp add: ok_world_def stage_defs filter7 codec_defs stream_defs)
  moreover have "\<exists>tr. main_platforms ok_world 0 = Some (tr, Exit 0) \<and> Call (BuildProgram ''-D RADIUS=7'') \<notin> set tr"
    by (simp add: ok_world_def stage_defs main_filter_def produce2dGaussianKernel_def codec_defs stream_defs)
  ultimately have "main_platforms ok_world 7 \<noteq> main_platforms ok_world 0"
    by auto
  then show ?thesis
    by (simp add: main_def seven atoi_zero main_platforms_arguments)
qed

end
